theory Spec2Isabelle
  imports Main
begin

section \<open>Errors\<close>

text \<open>
  The source raises plain \<open>Error\<close> objects that differ only in their message. Each
  \<open>throw\<close> site is one constructor here, named after the error kind of the
  specification. \<open>AsciiRangeError\<close> is the throw of \<open>asciiToNumber\<close> and
  \<open>NotPositiveError\<close> the throw of \<open>getRequiredBits\<close>;
  \<open>UndefinedOperandError\<close> is the \<open>TypeError\<close> that the field library raises when
  an arithmetic operand is \<open>undefined\<close> (an array read past the end).
\<close>

datatype error =
    EmptyInputError
  | DimensionMismatchError
  | InvalidArityError
  | RoundOverflowError
  | MissingChallengeError
  | UnexpectedChallengeError
  | TooManyRoundsError
  | DegreeError
  | SumMismatchError
  | OracleMismatchError
  | IncompleteRoundsError
  | DivisionByZeroError
  | AsciiRangeError
  | NotPositiveError
  | UndefinedOperandError

section \<open>The field primitive\<close>

text \<open>
  The class \<open>Field\<close> comes from the library \<open>o1js\<close>, which is not part of the
  repository. Its order is a parameter \<open>p\<close> of every definition below, and a field
  element is its canonical representative, an integer in \<open>{0..<p}\<close>.
\<close>

definition is_field :: "int \<Rightarrow> int \<Rightarrow> bool" where
  "is_field p x \<longleftrightarrow> 0 \<le> x \<and> x < p"

text \<open>
  Modelled from the spec: the constructor \<open>Field(x)\<close> of the missing field library;
  all arithmetic is performed mod the field's order.
\<close>

definition Field :: "int \<Rightarrow> int \<Rightarrow> int" where
  "Field p x = x mod p"

text \<open>Modelled from the spec: \<open>add\<close>, \<open>sub\<close> and \<open>mul\<close> of the missing field library.\<close>

definition Field_add :: "int \<Rightarrow> int \<Rightarrow> int \<Rightarrow> int" where
  "Field_add p a b = (a + b) mod p"

definition Field_sub :: "int \<Rightarrow> int \<Rightarrow> int \<Rightarrow> int" where
  "Field_sub p a b = (a - b) mod p"

definition Field_mul :: "int \<Rightarrow> int \<Rightarrow> int \<Rightarrow> int" where
  "Field_mul p a b = (a * b) mod p"

text \<open>
  Modelled from the spec: the modular inverse of the missing field library, the element
  \<open>x\<close> of \<open>{0..<p}\<close> with \<open>b * x = 1\<close> in the field, found by search.
\<close>

definition Field_inv :: "int \<Rightarrow> int \<Rightarrow> int" where
  "Field_inv p b =
     (case find (\<lambda>x. (b * x) mod p = 1) (map int [0..<nat p]) of
        Some x \<Rightarrow> x
      | None \<Rightarrow> 0)"

text \<open>
  Modelled from the spec: \<open>div\<close> of the missing field library; division is
  multiplication by the modular inverse and is an error when the divisor is the additive
  identity.
\<close>

definition Field_div :: "int \<Rightarrow> int \<Rightarrow> int \<Rightarrow> error + int" where
  "Field_div p a b =
     (if b = 0 then Inl DivisionByZeroError else Inr (Field_mul p a (Field_inv p b)))"

text \<open>
  Modelled from the spec: \<open>lessThan\<close>, \<open>toBigInt\<close> and \<open>equals\<close> of the missing
  field library, which agree with the canonical integer embedding. The argument of
  \<open>lessThan\<close> is a number that the library first converts to a field element.
\<close>

definition Field_lessThan :: "int \<Rightarrow> int \<Rightarrow> int \<Rightarrow> bool" where
  "Field_lessThan p a n \<longleftrightarrow> a < Field p n"

definition Field_toBigInt :: "int \<Rightarrow> int" where
  "Field_toBigInt a = a"

section \<open>Loops that may throw\<close>

text \<open>
  A \<open>for\<close> loop over the indices \<open>is\<close> with loop state \<open>s\<close>; an exception thrown
  by the body ends the loop.
\<close>

fun forE :: "'i list \<Rightarrow> 's \<Rightarrow> ('i \<Rightarrow> 's \<Rightarrow> error + 's) \<Rightarrow> error + 's" where
  "forE [] s body = Inr s"
| "forE (i # is) s body =
     (case body i s of Inl e \<Rightarrow> Inl e | Inr s' \<Rightarrow> forE is s' body)"

section \<open>Univariate low-degree extension\<close>

text \<open>
  \<open>getUnivariateLagrangeBasis\<close> (univariate-lagrange.ts): the product over all
  \<open>j \<noteq> index\<close> of \<open>(x - nodes[j]) / (nodes[index] - nodes[j])\<close>. The caller passes an
  \<open>index\<close> below \<open>nodes.length\<close>.
\<close>

definition getUnivariateLagrangeBasis :: "int \<Rightarrow> nat \<Rightarrow> int list \<Rightarrow> int \<Rightarrow> error + int" where
  "getUnivariateLagrangeBasis p index nodes x =
     forE [0..<length nodes] (Field p 1) (\<lambda>j accumulator.
       if j = index then Inr accumulator
       else
         let numerator = Field_sub p x (nodes ! j);
             denominator = Field_sub p (nodes ! index) (nodes ! j)
         in case Field_div p numerator denominator of
              Inl e \<Rightarrow> Inl e
            | Inr term \<Rightarrow> Inr (Field_mul p accumulator term))"

text \<open>
  \<open>getUnivariateLDE\<close> (univariate-lagrange.ts): the fast path returns
  \<open>values[r]\<close> when \<open>r\<close> is below \<open>values.length\<close>; the general path sums
  \<open>values[i] * L_i(r)\<close> over the nodes \<open>0 .. n-1\<close>.
\<close>

definition getUnivariateLDE :: "int \<Rightarrow> int list \<Rightarrow> int \<Rightarrow> error + int" where
  "getUnivariateLDE p values r =
     (if values = [] then Inl EmptyInputError
      else if Field_lessThan p r (int (length values))
        then Inr (values ! nat (Field_toBigInt r))
      else
        let nodes = map (\<lambda>index. Field p (int index)) [0..<length values]
        in forE [0..<length nodes] (Field p 0) (\<lambda>i accumulator.
             case getUnivariateLagrangeBasis p i nodes r of
               Inl e \<Rightarrow> Inl e
             | Inr basis \<Rightarrow> Inr (Field_add p accumulator (Field_mul p (values ! i) basis))))"

section \<open>Utilities (util.ts)\<close>

text \<open>
  \<open>asciiToNumber\<close>: the code of the first character, an error above 127. A character
  of the model has a code below 256; every code from 128 on takes the same branch.
\<close>

definition asciiToNumber :: "char \<Rightarrow> error + nat" where
  "asciiToNumber c =
     (let num = (of_char c :: nat)
      in if num > 127 then Inl AsciiRangeError else Inr num)"

text \<open>
  \<open>toBinary\<close>: the digit at \<open>index\<close> is \<open>(num >> index) & 1\<close>, and the array is
  reversed, so the most significant bit comes first. The shift of the source is the
  32-bit one of JavaScript; it is the shift below for every \<open>num\<close> and \<open>index\<close> that
  an array index and a bit position below 32 can be.
\<close>

definition toBinary :: "nat \<Rightarrow> nat \<Rightarrow> nat list" where
  "toBinary num bitLength = rev (map (\<lambda>index. (num div 2 ^ index) mod 2) [0..<bitLength])"

text \<open>
  \<open>Math.ceil(Math.log2(n))\<close>, computed on the naturals: the least \<open>d\<close> with
  \<open>n \<le> 2 ^ d\<close>. The source computes it in floating point.
\<close>

fun ceil_log2 :: "nat \<Rightarrow> nat" where
  "ceil_log2 n = (if n \<le> 1 then 0 else Suc (ceil_log2 ((n + 1) div 2)))"

declare ceil_log2.simps [simp del]

definition getRequiredBits :: "nat \<Rightarrow> error + nat" where
  "getRequiredBits numberOfValues =
     (if numberOfValues < 1 then Inl NotPositiveError else Inr (ceil_log2 numberOfValues))"

definition generateBinaryVertices :: "nat \<Rightarrow> nat list list" where
  "generateBinaryVertices d = map (\<lambda>i. toBinary i d) [0..<2 ^ d]"

section \<open>Multilinear low-degree extension of a table of field elements\<close>

text \<open>
  \<open>getMultilinearLagrangeBasis\<close> (sum-check/multilinear-lagrange.ts): the product over
  the entries of \<open>vertex\<close> of \<open>vertex[j] * x[j] + (1 - vertex[j]) * (1 - x[j])\<close>. Its
  only caller passes an \<open>x\<close> as long as \<open>vertex\<close>.
\<close>

definition getMultilinearLagrangeBasis :: "int \<Rightarrow> int list \<Rightarrow> int list \<Rightarrow> int" where
  "getMultilinearLagrangeBasis p vertex x =
     fold (\<lambda>j accumulator.
        let univariateBasis =
              Field_add p (Field_mul p (vertex ! j) (x ! j))
                (Field_mul p (Field_sub p (Field p 1) (vertex ! j))
                             (Field_sub p (Field p 1) (x ! j)))
        in Field_mul p accumulator univariateBasis)
       [0..<length vertex] (Field p 1)"

text \<open>
  \<open>getMultilinearLDE\<close> (sum-check/multilinear-lagrange.ts): the dimension is
  derived from the length of \<open>values\<close>, and \<open>r\<close> must have exactly that length.
\<close>

definition getMultilinearLDE :: "int \<Rightarrow> int list \<Rightarrow> int list \<Rightarrow> error + int" where
  "getMultilinearLDE p values r =
     (if values = [] then Inl EmptyInputError
      else
        let dimension = ceil_log2 (length values)
        in if length r \<noteq> dimension then Inl DimensionMismatchError
           else
             let nodes = map (map (\<lambda>e. Field p (int e))) (generateBinaryVertices dimension)
             in Inr (fold (\<lambda>i accumulator.
                      let vertex = map (\<lambda>e. Field p (int e)) (toBinary i dimension);
                          term = (if i < length values
                                  then Field_mul p (values ! i)
                                         (getMultilinearLagrangeBasis p vertex r)
                                  else Field p 0)
                      in Field_add p accumulator term)
                    [0..<length nodes] (Field p 0)))"

section \<open>Multilinear extension of an ASCII message\<close>

text \<open>
  \<open>getMultilinearLagrangeBasisAt\<close> (message-extensions/multilinear-lagrange.ts). The
  entries of \<open>w\<close> are numbers, which \<open>mul\<close> converts to field elements.
\<close>

definition getMultilinearLagrangeBasisAt ::
    "int \<Rightarrow> nat list \<Rightarrow> nat list list \<Rightarrow> int list \<Rightarrow> error + int" where
  "getMultilinearLagrangeBasisAt p w interpolatingSet x =
     (if length w \<noteq> length (hd interpolatingSet) \<or> length x \<noteq> length (hd interpolatingSet)
      then Inl DimensionMismatchError
      else Inr (fold (\<lambda>i accumulator.
                  Field_mul p accumulator
                    (Field_add p (Field_mul p (x ! i) (Field p (int (w ! i))))
                       (Field_mul p (Field_sub p (Field p 1) (x ! i))
                                    (Field p (1 - int (w ! i))))))
                [0..<length w] (Field p 1)))"

text \<open>
  \<open>getMultilinearLagrange\<close>, the naive evaluator: one basis product per vertex.
\<close>

definition getMultilinearLagrange :: "int \<Rightarrow> string \<Rightarrow> int list \<Rightarrow> error + int" where
  "getMultilinearLagrange p message x =
     (let n = length message
      in if n = 0 then Inl EmptyInputError
         else
           let d = ceil_log2 n;
               interpolatingSet = generateBinaryVertices d
           in forE [0..<length interpolatingSet] (Field p 0) (\<lambda>i accumulator.
                case (if i \<ge> length message then Inr (Field p 0)
                      else (case asciiToNumber (message ! i) of
                              Inl e \<Rightarrow> Inl e
                            | Inr c \<Rightarrow> Inr (Field p (int c)))) of
                  Inl e \<Rightarrow> Inl e
                | Inr coefficient \<Rightarrow>
                    (case getMultilinearLagrangeBasisAt p (interpolatingSet ! i)
                            interpolatingSet x of
                       Inl e \<Rightarrow> Inl e
                     | Inr lagrangeBasisAtInput \<Rightarrow>
                         Inr (Field_add p accumulator
                                (Field_mul p coefficient lagrangeBasisAtInput)))))"

text \<open>
  \<open>memoizedLagrangeBasis\<close> (fast-multilinear-lagrange.ts). The first statement reads
  \<open>x[0]\<close>; on the empty vector that is \<open>undefined\<close>, and \<open>Field(1).sub(undefined)\<close>
  throws. Each later dimension expands every entry \<open>e\<close> into \<open>e * (1 - x[i])\<close> and
  \<open>e * x[i]\<close>.
\<close>

definition memoizedLagrangeBasis :: "int \<Rightarrow> int list \<Rightarrow> error + int list" where
  "memoizedLagrangeBasis p x =
     (if x = [] then Inl UndefinedOperandError
      else Inr (fold (\<lambda>i prevRound.
                  concat (map (\<lambda>e. [Field_mul p e (Field_sub p (Field p 1) (x ! i)),
                                      Field_mul p e (x ! i)]) prevRound))
                [1..<length x]
                [Field_sub p (Field p 1) (x ! 0), x ! 0]))"

text \<open>
  \<open>getMemoizedMultilinearLagrange\<close>, the dynamic-programming evaluator: the vector
  \<open>v1\<close> of the zero-padded message, the vector \<open>v2\<close> of all basis values, and their
  dot product.
\<close>

definition getMemoizedMultilinearLagrange :: "int \<Rightarrow> string \<Rightarrow> int list \<Rightarrow> error + int" where
  "getMemoizedMultilinearLagrange p message r =
     (if message = [] then Inl EmptyInputError
      else case getRequiredBits (length message) of
        Inl e \<Rightarrow> Inl e
      | Inr d \<Rightarrow>
          if length r \<noteq> d then Inl DimensionMismatchError
          else
            let interpolatingSet = generateBinaryVertices d
            in case forE [0..<length interpolatingSet] [] (\<lambda>index v1.
                      if index \<ge> length message then Inr (v1 @ [Field p 0])
                      else (case asciiToNumber (message ! index) of
                              Inl e \<Rightarrow> Inl e
                            | Inr c \<Rightarrow> Inr (v1 @ [Field p (int c)]))) of
                 Inl e \<Rightarrow> Inl e
               | Inr v1 \<Rightarrow>
                   (case memoizedLagrangeBasis p r of
                      Inl e \<Rightarrow> Inl e
                    | Inr v2 \<Rightarrow>
                        Inr (fold (\<lambda>i accumulator.
                               Field_add p accumulator (Field_mul p (v1 ! i) (v2 ! i)))
                             [0..<length interpolatingSet] (Field p 0))))"

section \<open>The Prover\<close>

text \<open>
  The class \<open>Prover\<close> with its fields \<open>v\<close>, \<open>g\<close> and \<open>r\<close>. The constructor rejects a
  table longer than \<open>2 ** v\<close>.
\<close>

record Prover =
  P_v :: nat
  P_g :: "int list"
  P_r :: "int list"

definition new_Prover :: "int list \<Rightarrow> nat \<Rightarrow> error + Prover" where
  "new_Prover g v =
     (if length g > 2 ^ v then Inl InvalidArityError
      else Inr \<lparr>P_v = v, P_g = g, P_r = []\<rparr>)"

text \<open>
  \<open>Number.prototype.toString(2)\<close> on a natural number, \<open>String.prototype.padStart\<close>
  with its default filler, the space, and \<open>Field(e)\<close> on a one-character string, which
  the field library reads with \<open>BigInt(e)\<close>: a digit is its value and the space is zero.
  The strings that \<open>getBinaryVectors\<close> builds hold no other character.
\<close>

fun toString2 :: "nat \<Rightarrow> string" where
  "toString2 n =
     (if n < 2 then [if n = 0 then CHR ''0'' else CHR ''1'']
      else toString2 (n div 2) @ [if n mod 2 = 0 then CHR ''0'' else CHR ''1''])"

declare toString2.simps [simp del]

definition padStart :: "nat \<Rightarrow> string \<Rightarrow> string" where
  "padStart targetLength s = replicate (targetLength - length s) (CHR '' '') @ s"

definition Field_of_char :: "int \<Rightarrow> char \<Rightarrow> int" where
  "Field_of_char p e = Field p (if e = CHR '' '' then 0 else int (of_char e) - 48)"

text \<open>
  \<open>getBinaryVectors\<close> of sum-check-prover.ts returns no vector for dimension 0; the one
  of sum-check.ts has no such case, and \<open>(0).toString(2).padStart(0)\<close> is the string
  \<open>"0"\<close>, so it returns the single vector \<open>[0]\<close> of length one.
\<close>

definition getBinaryVectors_sc :: "int \<Rightarrow> nat \<Rightarrow> int list list" where
  "getBinaryVectors_sc p dimension =
     map (\<lambda>i. map (Field_of_char p) (padStart dimension (toString2 i))) [0..<2 ^ dimension]"

definition getBinaryVectors :: "int \<Rightarrow> nat \<Rightarrow> int list list" where
  "getBinaryVectors p dimension =
     (if dimension = 0 then [] else getBinaryVectors_sc p dimension)"

text \<open>
  \<open>getProposedSum\<close> is the same text in both files; it differs in the
  \<open>getBinaryVectors\<close> it calls.
\<close>

definition getProposedSum :: "int \<Rightarrow> Prover \<Rightarrow> error + int" where
  "getProposedSum p P =
     (let binaryVectors = getBinaryVectors p (P_v P)
      in forE [0..<length binaryVectors] (Field p 0) (\<lambda>i accumulator.
           case getMultilinearLDE p (P_g P) (binaryVectors ! i) of
             Inl e \<Rightarrow> Inl e
           | Inr t \<Rightarrow> Inr (Field_add p accumulator t)))"

definition getProposedSum_sc :: "int \<Rightarrow> Prover \<Rightarrow> error + int" where
  "getProposedSum_sc p P =
     (let binaryVectors = getBinaryVectors_sc p (P_v P)
      in forE [0..<length binaryVectors] (Field p 0) (\<lambda>i accumulator.
           case getMultilinearLDE p (P_g P) (binaryVectors ! i) of
             Inl e \<Rightarrow> Inl e
           | Inr t \<Rightarrow> Inr (Field_add p accumulator t)))"

text \<open>
  The body of the \<open>forEach\<close> of \<open>getRoundJPolynomial\<close>: both sums grow by one
  evaluation of the extension of \<open>g\<close>.
\<close>

definition addRoundTerms ::
    "int \<Rightarrow> int list \<Rightarrow> int list \<Rightarrow> int list \<Rightarrow> int \<times> int \<Rightarrow> error + int \<times> int" where
  "addRoundTerms p g r vector sums =
     (case getMultilinearLDE p g (r @ [Field p 0] @ vector) of
        Inl e \<Rightarrow> Inl e
      | Inr t0 \<Rightarrow>
          (case getMultilinearLDE p g (r @ [Field p 1] @ vector) of
             Inl e \<Rightarrow> Inl e
           | Inr t1 \<Rightarrow> Inr (Field_add p (fst sums) t0, Field_add p (snd sums) t1)))"

text \<open>
  \<open>getRoundJPolynomial\<close> of sum-check-prover.ts. The challenge is appended to \<open>r\<close>
  in the first statement, before any check, so the Prover that the call leaves behind is
  returned next to the result also when the call throws.
\<close>

definition getRoundJPolynomial :: "int \<Rightarrow> Prover \<Rightarrow> int option \<Rightarrow> (error + int list) \<times> Prover" where
  "getRoundJPolynomial p P r_prev =
     (let P1 = (case r_prev of Some c \<Rightarrow> P\<lparr>P_r := P_r P @ [c]\<rparr> | None \<Rightarrow> P);
          j = length (P_r P1) + 1
      in if length (P_r P1) \<ge> P_v P1 then (Inl RoundOverflowError, P1)
         else if j = 1 \<and> r_prev \<noteq> None then (Inl UnexpectedChallengeError, P1)
         else if j \<noteq> 1 \<and> r_prev = None then (Inl MissingChallengeError, P1)
         else
           let binaryVectors = getBinaryVectors p (P_v P1 - j)
           in (case (if binaryVectors \<noteq> []
                     then forE binaryVectors (Field p 0, Field p 0)
                            (addRoundTerms p (P_g P1) (P_r P1))
                     else addRoundTerms p (P_g P1) (P_r P1) [] (Field p 0, Field p 0)) of
                 Inl e \<Rightarrow> Inl e
               | Inr sums \<Rightarrow> Inr [fst sums, snd sums],
               P1))"

text \<open>
  \<open>getRoundJPolynomial\<close> of sum-check.ts. All checks come first; the challenge is
  appended only when \<open>r\<close> is not empty.
\<close>

definition getRoundJPolynomial_sc :: "int \<Rightarrow> Prover \<Rightarrow> int option \<Rightarrow> (error + int list) \<times> Prover" where
  "getRoundJPolynomial_sc p P r_prev =
     (if length (P_r P) \<ge> P_v P then (Inl RoundOverflowError, P)
      else if length (P_r P) = 0 \<and> r_prev \<noteq> None then (Inl UnexpectedChallengeError, P)
      else if length (P_r P) \<noteq> 0 \<and> r_prev = None then (Inl MissingChallengeError, P)
      else
        let P1 = (if length (P_r P) \<noteq> 0
                  then (case r_prev of Some c \<Rightarrow> P\<lparr>P_r := P_r P @ [c]\<rparr> | None \<Rightarrow> P)
                  else P);
            j = length (P_r P1) + 1;
            binaryVectors = getBinaryVectors_sc p (P_v P1 - j)
        in (case forE binaryVectors (Field p 0, Field p 0)
                   (addRoundTerms p (P_g P1) (P_r P1)) of
              Inl e \<Rightarrow> Inl e
            | Inr sums \<Rightarrow> Inr [fst sums, snd sums],
            P1))"

section \<open>The Verifier\<close>

record Verifier =
  V_v :: nat
  V_proposedSum :: int
  V_polynomials :: "int list list"
  V_r :: "int list"

definition new_Verifier :: "int \<Rightarrow> nat \<Rightarrow> Verifier" where
  "new_Verifier proposedSum v =
     \<lparr>V_v = v, V_proposedSum = proposedSum, V_polynomials = [], V_r = []\<rparr>"

text \<open>
  \<open>equals\<close> of the field library returns an object of its class \<open>Bool\<close>;
  \<open>toBoolean\<close> reads it. In JavaScript the operator \<open>!\<close> on an object is \<open>false\<close>,
  whatever the object holds.
\<close>

datatype Bool = Bool bool

definition Field_equals :: "int \<Rightarrow> int \<Rightarrow> Bool" where
  "Field_equals a b = Bool (a = b)"

fun toBoolean :: "Bool \<Rightarrow> bool" where
  "toBoolean (Bool b) = b"

definition not_object :: "Bool \<Rightarrow> bool" where
  "not_object b = False"

text \<open>
  \<open>verifyRoundJPolynomial\<close>, parametrised by the way the result of \<open>equals\<close> is
  negated, the only difference between the two files: \<open>!sum.equals(..).toBoolean()\<close>
  in sum-check-iterative.ts and \<open>!sum.equals(..)\<close> in sum-check.ts. The argument
  \<open>r_j\<close> is the element that \<open>getRandomFieldElement\<close> draws. A read of
  \<open>this.polynomials\<close> past its end is \<open>undefined\<close>, which \<open>getUnivariateLDE\<close>
  rejects as empty. A call that throws leaves the Verifier as it was.
\<close>

definition verifyRound ::
    "(Bool \<Rightarrow> bool) \<Rightarrow> int \<Rightarrow> Verifier \<Rightarrow> int list \<Rightarrow> int \<Rightarrow> error + int \<times> Verifier" where
  "verifyRound differs p V g_j r_j =
     (let j = length (V_r V) + 1
      in if j > V_v V then Inl TooManyRoundsError
         else if length g_j > 2 then Inl DegreeError
         else case getUnivariateLDE p g_j (Field p 0) of
           Inl e \<Rightarrow> Inl e
         | Inr at0 \<Rightarrow>
             (case getUnivariateLDE p g_j (Field p 1) of
                Inl e \<Rightarrow> Inl e
              | Inr at1 \<Rightarrow>
                  let total = Field_add p at0 at1;
                      accepted = Inr (r_j, V\<lparr>V_r := V_r V @ [r_j],
                                              V_polynomials := V_polynomials V @ [g_j]\<rparr>)
                  in if j = 1
                     then (if differs (Field_equals total (V_proposedSum V))
                           then Inl SumMismatchError else accepted)
                     else
                       (case (if j - 2 < length (V_polynomials V)
                              then getUnivariateLDE p (V_polynomials V ! (j - 2))
                                     (V_r V ! (j - 2))
                              else Inl EmptyInputError) of
                          Inl e \<Rightarrow> Inl e
                        | Inr prevPolynomialAtPrevR \<Rightarrow>
                            if differs (Field_equals total prevPolynomialAtPrevR)
                            then Inl SumMismatchError else accepted)))"

definition verifyRoundJPolynomial ::
    "int \<Rightarrow> Verifier \<Rightarrow> int list \<Rightarrow> int \<Rightarrow> error + int \<times> Verifier" where
  "verifyRoundJPolynomial = verifyRound (\<lambda>b. \<not> toBoolean b)"

definition verifyRoundJPolynomial_sc ::
    "int \<Rightarrow> Verifier \<Rightarrow> int list \<Rightarrow> int \<Rightarrow> error + int \<times> Verifier" where
  "verifyRoundJPolynomial_sc = verifyRound not_object"

text \<open>
  \<open>verifyOracleQueryOfG\<close> of sum-check-iterative.ts: \<open>g(r) = g_v(r_v)\<close>.
\<close>

definition verifyOracleQueryOfG :: "int \<Rightarrow> Verifier \<Rightarrow> int list \<Rightarrow> error + unit" where
  "verifyOracleQueryOfG p V g =
     (if length (V_r V) \<noteq> V_v V \<or> length (V_polynomials V) \<noteq> V_v V
      then Inl IncompleteRoundsError
      else case getMultilinearLDE p g (V_r V) of
        Inl e \<Rightarrow> Inl e
      | Inr gOfR \<Rightarrow>
          (case (if V_polynomials V = [] then Inl EmptyInputError
                 else getUnivariateLDE p (last (V_polynomials V)) (last (V_r V))) of
             Inl e \<Rightarrow> Inl e
           | Inr g_vOfR_v \<Rightarrow>
               if \<not> toBoolean (Field_equals gOfR g_vOfR_v) then Inl OracleMismatchError
               else Inr ()))"

text \<open>
  The \<open>runner\<close> of sum-check-iterative.ts for any table \<open>g\<close> and any \<open>v\<close>: the
  Prover's sum, \<open>v\<close> rounds, the oracle query. \<open>challenge j\<close> is the element that
  the Verifier draws in round \<open>j\<close>.
\<close>

definition runner :: "int \<Rightarrow> int list \<Rightarrow> nat \<Rightarrow> (nat \<Rightarrow> int) \<Rightarrow> error + unit" where
  "runner p g v challenge =
     (case new_Prover g v of
        Inl e \<Rightarrow> Inl e
      | Inr prover \<Rightarrow>
          (case getProposedSum p prover of
             Inl e \<Rightarrow> Inl e
           | Inr proposedSum \<Rightarrow>
               (case forE [1..<Suc v] (prover, new_Verifier proposedSum v, None)
                       (\<lambda>j (prover, verifier, r_j).
                          case getRoundJPolynomial p prover r_j of
                            (Inl e, prover') \<Rightarrow> Inl e
                          | (Inr g_j, prover') \<Rightarrow>
                              (case verifyRoundJPolynomial p verifier g_j (challenge j) of
                                 Inl e \<Rightarrow> Inl e
                               | Inr (r_j', verifier') \<Rightarrow>
                                   Inr (prover', verifier', Some r_j'))) of
                  Inl e \<Rightarrow> Inl e
                | Inr (prover, verifier, r_j) \<Rightarrow>
                    verifyOracleQueryOfG p verifier (P_g prover))))"

section \<open>The extension as a polynomial over the integers\<close>

text \<open>
  The definitions of this section are not code of the repository. They state, without
  any reduction mod \<open>p\<close>, the polynomial that \<open>getMultilinearLDE\<close> evaluates:
  \<open>chi w x\<close> is the factor of one coordinate, \<open>basisZ\<close> the basis polynomial of a
  vertex, \<open>mleZ\<close> the extension of a table in dimension \<open>d\<close>.
\<close>

definition chi :: "int \<Rightarrow> int \<Rightarrow> int" where
  "chi w x = w * x + (1 - w) * (1 - x)"

definition basisZ :: "int list \<Rightarrow> int list \<Rightarrow> int" where
  "basisZ w x = prod_list (map (\<lambda>j. chi (w ! j) (x ! j)) [0..<length w])"

definition mleZ :: "int list \<Rightarrow> nat \<Rightarrow> int list \<Rightarrow> int" where
  "mleZ values d x =
     (\<Sum>i\<leftarrow>[0..<2 ^ d]. if i < length values
                         then values ! i * basisZ (map int (toBinary i d)) x else 0)"

text \<open>
  \<open>bvecs k\<close> lists the vertices of the \<open>k\<close>-dimensional hypercube in the order of
  their binary value, and \<open>hsum values d pre k\<close> sums the extension over all points
  that start with \<open>pre\<close> and end in a vertex of \<open>bvecs k\<close>.
\<close>

definition bvecs :: "nat \<Rightarrow> int list list" where
  "bvecs k = map (\<lambda>i. map int (toBinary i k)) [0..<2 ^ k]"

definition hsum :: "int list \<Rightarrow> nat \<Rightarrow> int list \<Rightarrow> nat \<Rightarrow> int" where
  "hsum values d pre k = (\<Sum>b\<leftarrow>bvecs k. mleZ values d (pre @ b))"

text \<open>
  The honest run of the protocol, round by round: the challenges fixed before round
  \<open>j\<close>, the polynomial that the Prover sends in round \<open>j\<close>, and the state of the
  \<open>runner\<close> loop when round \<open>j\<close> starts.
\<close>

definition honest_prefix :: "(nat \<Rightarrow> int) \<Rightarrow> nat \<Rightarrow> int list" where
  "honest_prefix challenge j = map challenge [1..<j]"

definition honest_polynomial :: "int \<Rightarrow> int list \<Rightarrow> nat \<Rightarrow> (nat \<Rightarrow> int) \<Rightarrow> nat \<Rightarrow> int list" where
  "honest_polynomial p g v challenge j =
     [hsum g v (honest_prefix challenge j @ [0]) (v - j) mod p,
      hsum g v (honest_prefix challenge j @ [1]) (v - j) mod p]"

definition honest_state ::
    "int \<Rightarrow> int list \<Rightarrow> nat \<Rightarrow> (nat \<Rightarrow> int) \<Rightarrow> nat \<Rightarrow> Prover \<times> Verifier \<times> int option" where
  "honest_state p g v challenge j =
     (\<lparr>P_v = v, P_g = g, P_r = honest_prefix challenge (j - 1)\<rparr>,
      \<lparr>V_v = v, V_proposedSum = hsum g v [] v mod p,
       V_polynomials = map (honest_polynomial p g v challenge) [1..<j],
       V_r = honest_prefix challenge j\<rparr>,
      if j = 1 then None else Some (challenge (j - 1)))"

text \<open>
  A caller's sequence of calls of \<open>getRoundJPolynomial\<close> on one Prover, each with the
  challenge it passes or with none; the sequence ends at the first call that throws.
\<close>

fun proverCalls :: "int \<Rightarrow> Prover \<Rightarrow> int option list \<Rightarrow> error + Prover" where
  "proverCalls p P [] = Inr P"
| "proverCalls p P (a # as) =
     (case getRoundJPolynomial p P a of
        (Inl e, P') \<Rightarrow> Inl e
      | (Inr g_j, P') \<Rightarrow> proverCalls p P' as)"

section \<open>Facts about the field primitive\<close>

lemma Field_inv_spec:
  assumes "0 \<le> x" and "x < p" and "(b * x) mod p = 1"
  shows "(b * Field_inv p b) mod p = 1"
proof -
  let ?P = "\<lambda>y. (b * y) mod p = 1"
  let ?xs = "map int [0..<nat p]"
  have "x \<in> set ?xs"
  proof -
    have "nat x < nat p" using assms(1,2) by simp
    then have "int (nat x) \<in> set ?xs" by (simp del: int_nat_eq)
    then show ?thesis using assms(1) by simp
  qed
  then have "find ?P ?xs \<noteq> None"
    using assms(3) by (auto simp: find_None_iff)
  then obtain y where y: "find ?P ?xs = Some y" by blast
  then have "?P y" by (auto simp: find_Some_iff)
  then show ?thesis by (simp add: Field_inv_def y)
qed

lemma Field_inv_one:
  assumes "1 < p"
  shows "(a * Field_inv p 1) mod p = a mod p"
proof -
  have "(1 * Field_inv p 1) mod p = 1"
    using assms by (intro Field_inv_spec [of 1 p 1]) simp_all
  then have "Field_inv p 1 mod p = 1 mod p" using assms by simp
  then show ?thesis by (metis mod_mult_right_eq mult.right_neutral)
qed

lemma Field_inv_minus_one:
  assumes "1 < p"
  shows "(a * Field_inv p (p - 1)) mod p = (- a) mod p"
proof -
  have sq: "(p - 1) * (p - 1) = p * (p - 2) + 1" by (simp add: algebra_simps)
  have "((p - 1) * (p - 1)) mod p = 1"
    using assms unfolding sq by simp
  then have "((p - 1) * Field_inv p (p - 1)) mod p = 1"
    using assms by (intro Field_inv_spec [of "p - 1" p "p - 1"]) simp_all
  then show ?thesis
    using assms
    by (metis add.inverse_inverse mod_mult_right_eq mult.commute
        mult.right_neutral mult_minus_right order.strict_trans zero_less_one zmod_minus1)
qed

section \<open>Facts about loops\<close>

lemma forE_total:
  "(\<And>i s. i \<in> set js \<Longrightarrow> \<exists>s'. body i s = Inr s') \<Longrightarrow> \<exists>s'. forE js s body = Inr s'"
proof (induction js arbitrary: s)
  case Nil
  then show ?case by simp
next
  case (Cons i js)
  obtain s' where "body i s = Inr s'" using Cons.prems [of i s] by auto
  then show ?case using Cons.IH [of s'] Cons.prems by simp
qed

lemma forE_pure:
  "(\<And>i s. i \<in> set js \<Longrightarrow> body i s = Inr (f i s)) \<Longrightarrow> forE js s body = Inr (fold f js s)"
  by (induction js arbitrary: s) simp_all

section \<open>Facts about the univariate extension\<close>

lemma upt2: "[0..<2] = [0, Suc 0]" by (simp add: upt_rec)

lemma basis0:
  assumes "1 < p"
  shows "getUnivariateLagrangeBasis p 0 [0, 1] r = Inr ((1 - r) mod p)"
proof -
  have d: "Field_sub p 0 1 = p - 1"
    using assms by (simp add: Field_sub_def zmod_minus1)
  have nz: "p - 1 \<noteq> 0" using assms by simp
  have "(r - 1) mod p * Field_inv p (p - 1) mod p = (1 - r) mod p"
    using Field_inv_minus_one [OF assms, of "(r - 1) mod p"]
    by (simp add: mod_minus_eq)
  then show ?thesis
    using assms nz
    apply (simp add: getUnivariateLagrangeBasis_def upt2 d Field_div_def Field_mul_def Let_def)
    apply (simp add: Field_sub_def Field_def)
    done
qed

lemma basis1:
  assumes "1 < p"
  shows "getUnivariateLagrangeBasis p (Suc 0) [0, 1] r = Inr (r mod p)"
proof -
  have d: "Field_sub p 1 0 = 1"
    using assms by (simp add: Field_sub_def)
  have "r mod p * Field_inv p 1 mod p = r mod p"
    using Field_inv_one [OF assms, of "r mod p"] by simp
  then show ?thesis
    using assms
    apply (simp add: getUnivariateLagrangeBasis_def upt2 d Field_div_def Field_mul_def Let_def)
    apply (simp add: Field_sub_def Field_def)
    done
qed

lemma getUnivariateLDE_two:
  assumes "1 < p" and "is_field p r" and "is_field p a" and "is_field p b"
  shows "getUnivariateLDE p [a, b] r = Inr ((a * (1 - r) + b * r) mod p)"
proof (cases "Field_lessThan p r 2")
  case True
  then have "r < 2" using assms(1) unfolding Field_lessThan_def Field_def
    by (smt (verit) pos_mod_bound zmod_le_nonneg_dividend)
  then have "r = 0 \<or> r = 1" using assms(2) by (auto simp: is_field_def)
  then show ?thesis using True assms(3,4)
    by (auto simp: getUnivariateLDE_def Field_toBigInt_def is_field_def)
next
  case False
  have "(a * ((1 - r) mod p) mod p + b * (r mod p) mod p) mod p = (a * (1 - r) + b * r) mod p"
    by (simp add: mod_simps)
  then show ?thesis using False assms(1)
    by (simp add: getUnivariateLDE_def upt2 basis0 basis1 Field_add_def Field_mul_def Field_def Let_def mod_simps)
qed

lemma dvd_small_int:
  assumes "(p::int) dvd d" and "\<bar>d\<bar> < p"
  shows "d = 0"
  by (meson assms(1,2) dvd_abs_iff zdvd_not_zless zero_less_abs_iff)

lemma node_difference_nonzero:
  assumes "int n < p" and "index < n" and "j < n" and "j \<noteq> index"
  shows "Field_sub p (Field p (int index)) (Field p (int j)) \<noteq> 0"
proof -
  have "Field_sub p (Field p (int index)) (Field p (int j)) = (int index - int j) mod p"
    using assms by (simp add: Field_sub_def Field_def)
  moreover have "(int index - int j) mod p \<noteq> 0"
  proof
    assume "(int index - int j) mod p = 0"
    then have "p dvd (int index - int j)" by (simp add: dvd_eq_mod_eq_0)
    moreover have "\<bar>int index - int j\<bar> < p" using assms by linarith
    ultimately have "int index - int j = 0" by (rule dvd_small_int)
    then show False using assms(4) by simp
  qed
  ultimately show ?thesis by simp
qed

lemma basis_total:
  assumes "int n < p" and "index < n"
  shows "\<exists>y. getUnivariateLagrangeBasis p index (map (\<lambda>i. Field p (int i)) [0..<n]) x = Inr y"
  unfolding getUnivariateLagrangeBasis_def
proof (rule forE_total)
  fix j s
  assume "j \<in> set [0..<length (map (\<lambda>i. Field p (int i)) [0..<n])]"
  then have j: "j < n" by simp
  show "\<exists>s'. (if j = index then Inr s
       else let numerator = Field_sub p x (map (\<lambda>i. Field p (int i)) [0..<n] ! j);
                denominator = Field_sub p (map (\<lambda>i. Field p (int i)) [0..<n] ! index)
                    (map (\<lambda>i. Field p (int i)) [0..<n] ! j)
            in case Field_div p numerator denominator of Inl e \<Rightarrow> Inl e
               | Inr term \<Rightarrow> Inr (Field_mul p s term)) = Inr s'"
    using node_difference_nonzero [OF assms(1) assms(2) j] j assms(2)
    by (simp add: Field_div_def Let_def)
qed

text \<open>
  Claim C9. In the general branch of \<open>getUnivariateLDE\<close> the divisor
  \<open>nodes[index] - nodes[j]\<close> of every division is nonzero for \<open>j \<noteq> index\<close>, and
  the function returns a field element for every non-empty table and every point: it
  never fails with a division by zero. The table is a JavaScript array, so its length is
  below the order of the field.
\<close>

theorem univariate_division_never_fails:
  assumes "values \<noteq> []" and "int (length values) < p"
  shows "(\<forall>index < length values. \<forall>j < length values. j \<noteq> index \<longrightarrow>
            Field_sub p (Field p (int index)) (Field p (int j)) \<noteq> 0)
         \<and> (\<exists>y. getUnivariateLDE p values r = Inr y)"
proof
  show "\<forall>index < length values. \<forall>j < length values. j \<noteq> index \<longrightarrow>
            Field_sub p (Field p (int index)) (Field p (int j)) \<noteq> 0"
    using node_difference_nonzero [OF assms(2)] by blast
next
  show "\<exists>y. getUnivariateLDE p values r = Inr y"
  proof (cases "Field_lessThan p r (int (length values))")
    case True
    then show ?thesis using assms(1) by (simp add: getUnivariateLDE_def)
  next
    case False
    let ?nodes = "map (\<lambda>index. Field p (int index)) [0..<length values]"
    have "\<exists>y. forE [0..<length ?nodes] (Field p 0) (\<lambda>i accumulator.
             case getUnivariateLagrangeBasis p i ?nodes r of
               Inl e \<Rightarrow> Inl e
             | Inr basis \<Rightarrow> Inr (Field_add p accumulator (Field_mul p (values ! i) basis))) = Inr y"
    proof (rule forE_total)
      fix i s
      assume "i \<in> set [0..<length ?nodes]"
      then have "i < length values" by simp
      then obtain b where "getUnivariateLagrangeBasis p i ?nodes r = Inr b"
        using basis_total [OF assms(2)] by blast
      then show "\<exists>s'. (case getUnivariateLagrangeBasis p i ?nodes r of
               Inl e \<Rightarrow> Inl e
             | Inr basis \<Rightarrow> Inr (Field_add p s (Field_mul p (values ! i) basis))) = Inr s'"
        by simp
    qed
    then show ?thesis using False assms(1) unfolding getUnivariateLDE_def Let_def by simp
  qed
qed

theorem univariate_division_never_fails_witness:
  "[104, 105, 7] \<noteq> ([] :: int list) \<and> int (length [104, 105, 7 :: int]) < 257
   \<and> Field_sub 257 (Field 257 (int 0)) (Field 257 (int 2)) \<noteq> 0
   \<and> (\<exists>y. getUnivariateLDE 257 [104, 105, 7] 200 = Inr y)"
proof -
  have h1: "[104, 105, 7] \<noteq> ([] :: int list)" by simp
  have h2: "int (length [104, 105, 7 :: int]) < 257" by simp
  have all: "(\<forall>index < length [104, 105, 7 :: int]. \<forall>j < length [104, 105, 7 :: int].
                j \<noteq> index \<longrightarrow> Field_sub 257 (Field 257 (int index)) (Field 257 (int j)) \<noteq> 0)"
    and ex: "\<exists>y. getUnivariateLDE 257 [104, 105, 7] 200 = Inr y"
    using univariate_division_never_fails [OF h1 h2, of 200] by blast+
  have "Field_sub 257 (Field 257 (int 0)) (Field 257 (int 2)) \<noteq> 0"
    using all by (elim allE [of _ 0] impE allE [of _ 2]) simp_all
  then show ?thesis using h1 h2 ex by blast
qed

text \<open>
  Claim C10. For the table \<open>[104, 105]\<close> the extension is 104 at the point 0, 105
  at the point 1 and 106 at the point 2, in every field whose order exceeds these
  numbers.
\<close>

theorem univariate_hi_scenario:
  assumes "106 < p"
  shows "getUnivariateLDE p [Field p 104, Field p 105] (Field p 0) = Inr 104
       \<and> getUnivariateLDE p [Field p 104, Field p 105] (Field p 1) = Inr 105
       \<and> getUnivariateLDE p [Field p 104, Field p 105] (Field p 2) = Inr 106"
proof -
  have p1: "1 < p" using assms by simp
  have v: "[Field p 104, Field p 105] = [104, 105]" using assms by (simp add: Field_def)
  have at0: "getUnivariateLDE p [104, 105] 0 = Inr 104"
    using assms by (simp add: getUnivariateLDE_def Field_lessThan_def Field_def Field_toBigInt_def)
  have at1: "getUnivariateLDE p [104, 105] 1 = Inr 105"
    using assms by (simp add: getUnivariateLDE_def Field_lessThan_def Field_def Field_toBigInt_def)
  have "getUnivariateLDE p [104, 105] 2 = Inr ((104 * (1 - 2) + 105 * 2) mod p)"
    using assms by (intro getUnivariateLDE_two p1) (simp_all add: is_field_def)
  then have at2: "getUnivariateLDE p [104, 105] 2 = Inr 106" using assms by simp
  show ?thesis using assms at0 at1 at2 by (simp add: v) (simp add: Field_def)
qed

theorem univariate_hi_scenario_witness:
  "(106 :: int) < 257
   \<and> getUnivariateLDE 257 [Field 257 104, Field 257 105] (Field 257 0) = Inr 104
   \<and> getUnivariateLDE 257 [Field 257 104, Field 257 105] (Field 257 1) = Inr 105
   \<and> getUnivariateLDE 257 [Field 257 104, Field 257 105] (Field 257 2) = Inr 106"
proof -
  have h: "(106 :: int) < 257" by simp
  show ?thesis using h univariate_hi_scenario [OF h] by blast
qed

section \<open>Facts about the multilinear extension\<close>

lemma chi_mod_cong:
  assumes "w mod p = w' mod p" and "x mod p = x' mod (p::int)"
  shows "chi w x mod p = chi w' x' mod p"
  unfolding chi_def
  by (intro mod_add_cong mod_mult_cong mod_diff_cong assms refl)

lemma chi_Field:
  "Field_add p (Field_mul p w x)
     (Field_mul p (Field_sub p (Field p 1) w) (Field_sub p (Field p 1) x)) mod p = chi w x mod p"
proof -
  have a: "((1 mod p - w) mod p * ((1 mod p - x) mod p)) mod p = ((1 - w) * (1 - x)) mod p"
    by (intro mod_mult_cong) (simp_all add: mod_diff_left_eq)
  have "(w * x mod p + ((1 mod p - w) mod p * ((1 mod p - x) mod p)) mod p) mod p
        = (w * x + (1 - w) * (1 - x)) mod p"
    by (intro mod_add_cong) (simp_all add: a)
  then show ?thesis
    by (simp add: Field_add_def Field_mul_def Field_sub_def Field_def chi_def)
qed

lemma fold_mul_mod:
  "fold (\<lambda>j acc. (acc * f j) mod p) js a mod p = (a * prod_list (map f js)) mod (p::int)"
proof (induction js arbitrary: a)
  case Nil
  then show ?case by simp
next
  case (Cons j js)
  have "fold (\<lambda>j acc. (acc * f j) mod p) (j # js) a mod p
        = (((a * f j) mod p) * prod_list (map f js)) mod p"
    using Cons.IH [of "(a * f j) mod p"] by simp
  also have "\<dots> = (a * f j * prod_list (map f js)) mod p"
    by (simp add: mod_mult_left_eq)
  finally show ?case by (simp add: mult.assoc)
qed

lemma fold_add_mod:
  "fold (\<lambda>j acc. (acc + f j) mod p) js a mod p = (a + sum_list (map f js)) mod (p::int)"
proof (induction js arbitrary: a)
  case Nil
  then show ?case by simp
next
  case (Cons j js)
  have "fold (\<lambda>j acc. (acc + f j) mod p) (j # js) a mod p
        = ((a + f j) mod p + sum_list (map f js)) mod p"
    using Cons.IH [of "(a + f j) mod p"] by simp
  also have "\<dots> = (a + f j + sum_list (map f js)) mod p"
    by (simp add: mod_add_left_eq)
  finally show ?case by (simp add: add.assoc)
qed

lemma prod_list_mod_cong:
  "(\<And>j. j \<in> set js \<Longrightarrow> f j mod p = g j mod (p::int)) \<Longrightarrow>
     prod_list (map f js) mod p = prod_list (map g js) mod p"
proof (induction js)
  case Nil
  then show ?case by simp
next
  case (Cons j js)
  have "(f j * prod_list (map f js)) mod p = (g j * prod_list (map g js)) mod p"
    by (rule mod_mult_cong) (simp_all add: Cons)
  then show ?case by simp
qed

lemma sum_list_mod_cong:
  "(\<And>j. j \<in> set js \<Longrightarrow> f j mod p = g j mod (p::int)) \<Longrightarrow>
     sum_list (map f js) mod p = sum_list (map g js) mod p"
proof (induction js)
  case Nil
  then show ?case by simp
next
  case (Cons j js)
  have "(f j + sum_list (map f js)) mod p = (g j + sum_list (map g js)) mod p"
    by (rule mod_add_cong) (simp_all add: Cons)
  then show ?case by simp
qed

lemma fold_mod_fixed:
  "a mod p = a \<Longrightarrow> fold (\<lambda>j acc. (g j acc) mod (p::int)) js a mod p
      = fold (\<lambda>j acc. (g j acc) mod p) js a"
  by (induction js arbitrary: a) simp_all

lemma getMultilinearLagrangeBasis_mod:
  "getMultilinearLagrangeBasis p vertex x = basisZ vertex x mod p"
proof -
  let ?f = "\<lambda>j. Field_add p (Field_mul p (vertex ! j) (x ! j))
                (Field_mul p (Field_sub p (Field p 1) (vertex ! j))
                             (Field_sub p (Field p 1) (x ! j)))"
  have def: "getMultilinearLagrangeBasis p vertex x
        = fold (\<lambda>j acc. (acc * ?f j) mod p) [0..<length vertex] (Field p 1)"
    by (simp add: getMultilinearLagrangeBasis_def Let_def Field_mul_def)
  have "fold (\<lambda>j acc. (acc * ?f j) mod p) [0..<length vertex] (Field p 1) mod p
        = fold (\<lambda>j acc. (acc * ?f j) mod p) [0..<length vertex] (Field p 1)"
    by (rule fold_mod_fixed) (simp add: Field_def)
  then have "getMultilinearLagrangeBasis p vertex x
        = (Field p 1 * prod_list (map ?f [0..<length vertex])) mod p"
    using fold_mul_mod [of ?f p "[0..<length vertex]" "Field p 1"] def by simp
  also have "\<dots> = prod_list (map ?f [0..<length vertex]) mod p"
    by (simp add: Field_def mod_mult_left_eq)
  also have "\<dots> = prod_list (map (\<lambda>j. chi (vertex ! j) (x ! j)) [0..<length vertex]) mod p"
    by (rule prod_list_mod_cong) (rule chi_Field)
  finally show ?thesis by (simp add: basisZ_def)
qed

lemma basisZ_Field:
  "basisZ (map (\<lambda>e. Field p (int e)) bits) x mod p = basisZ (map int bits) x mod p"
proof -
  have "prod_list (map (\<lambda>j. chi (map (\<lambda>e. Field p (int e)) bits ! j) (x ! j)) [0..<length bits]) mod p
      = prod_list (map (\<lambda>j. chi (map int bits ! j) (x ! j)) [0..<length bits]) mod p"
    by (rule prod_list_mod_cong) (auto intro!: chi_mod_cong simp: Field_def)
  then show ?thesis by (simp add: basisZ_def)
qed

lemma length_generateBinaryVertices [simp]: "length (generateBinaryVertices d) = 2 ^ d"
  by (simp add: generateBinaryVertices_def)

lemma getMultilinearLDE_mleZ:
  assumes "values \<noteq> []" and "length x = ceil_log2 (length values)"
  shows "getMultilinearLDE p values x = Inr (mleZ values (ceil_log2 (length values)) x mod p)"
proof -
  let ?d = "ceil_log2 (length values)"
  let ?T = "\<lambda>i. if i < length values
                 then Field_mul p (values ! i)
                        (getMultilinearLagrangeBasis p (map (\<lambda>e. Field p (int e)) (toBinary i ?d)) x)
                 else Field p 0"
  let ?Z = "\<lambda>i. if i < length values
                 then values ! i * basisZ (map int (toBinary i ?d)) x else 0"
  have def: "getMultilinearLDE p values x
             = Inr (fold (\<lambda>i acc. (acc + ?T i) mod p) [0..<2 ^ ?d] (Field p 0))"
    using assms by (simp add: getMultilinearLDE_def Let_def Field_add_def)
  have "fold (\<lambda>i acc. (acc + ?T i) mod p) [0..<2 ^ ?d] (Field p 0)
        = fold (\<lambda>i acc. (acc + ?T i) mod p) [0..<2 ^ ?d] (Field p 0) mod p"
    by (rule fold_mod_fixed [symmetric]) (simp add: Field_def)
  also have "\<dots> = (Field p 0 + sum_list (map ?T [0..<2 ^ ?d])) mod p"
    by (rule fold_add_mod)
  also have "\<dots> = sum_list (map ?T [0..<2 ^ ?d]) mod p"
    by (simp add: Field_def)
  also have "\<dots> = sum_list (map ?Z [0..<2 ^ ?d]) mod p"
  proof (rule sum_list_mod_cong)
    fix i
    have "(values ! i * (basisZ (map (\<lambda>e. Field p (int e)) (toBinary i ?d)) x mod p)) mod p
          = (values ! i * basisZ (map int (toBinary i ?d)) x) mod p"
      by (rule mod_mult_cong) (simp_all add: basisZ_Field)
    then show "?T i mod p = ?Z i mod p"
      by (simp add: Field_mul_def Field_def getMultilinearLagrangeBasis_mod)
  qed
  finally show ?thesis by (simp add: def mleZ_def)
qed

lemma ceil_log2_upper: "n \<le> 2 ^ ceil_log2 n"
proof (induction n rule: ceil_log2.induct)
  case (1 n)
  show ?case
  proof (cases "n \<le> 1")
    case True
    then show ?thesis by (simp add: ceil_log2.simps [of n])
  next
    case False
    then have "(n + 1) div 2 \<le> 2 ^ ceil_log2 ((n + 1) div 2)" using 1 by simp
    then have "n \<le> 2 * 2 ^ ceil_log2 ((n + 1) div 2)" by linarith
    then show ?thesis using False by (simp add: ceil_log2.simps [of n])
  qed
qed

lemma ceil_log2_least: "n \<le> 2 ^ d \<Longrightarrow> ceil_log2 n \<le> d"
proof (induction d arbitrary: n)
  case 0
  then show ?case by (simp add: ceil_log2.simps [of n])
next
  case (Suc d)
  show ?case
  proof (cases "n \<le> 1")
    case True
    then show ?thesis by (simp add: ceil_log2.simps [of n])
  next
    case False
    have "(n + 1) div 2 \<le> 2 ^ d" using Suc.prems by simp
    then have "ceil_log2 ((n + 1) div 2) \<le> d" by (rule Suc.IH)
    then show ?thesis using False by (simp add: ceil_log2.simps [of n])
  qed
qed

lemma ceil_log2_eq:
  assumes "1 \<le> v" and "2 ^ (v - 1) < n" and "n \<le> 2 ^ v"
  shows "ceil_log2 n = v"
proof -
  have "ceil_log2 n \<le> v" using assms(3) by (rule ceil_log2_least)
  moreover have "\<not> ceil_log2 n \<le> v - 1"
  proof
    assume "ceil_log2 n \<le> v - 1"
    then have "(2::nat) ^ ceil_log2 n \<le> 2 ^ (v - 1)" by (simp add: power_increasing)
    then show False using assms(2) ceil_log2_upper [of n] by linarith
  qed
  ultimately show ?thesis by linarith
qed

lemma length_toBinary [simp]: "length (toBinary i d) = d"
  by (simp add: toBinary_def)

lemma toBinary_Suc_msb: "toBinary i (Suc d) = (i div 2 ^ d) mod 2 # toBinary i d"
  by (simp add: toBinary_def)

lemma toBinary_Suc_lsb: "toBinary i (Suc d) = toBinary (i div 2) d @ [i mod 2]"
proof -
  have "[0..<Suc d] = 0 # map Suc [0..<d]"
    by (simp add: upt_conv_Cons map_Suc_upt del: upt_Suc)
  then have "toBinary i (Suc d)
      = rev (map (\<lambda>index. (i div 2 ^ Suc index) mod 2) [0..<d]) @ [i mod 2]"
    by (simp add: toBinary_def comp_def del: upt_Suc)
  moreover have "\<And>index. i div 2 ^ Suc index = (i div 2) div 2 ^ index"
    by (simp add: div_mult2_eq)
  ultimately show ?thesis by (simp add: toBinary_def)
qed

lemma toBinary_bits: "b \<in> set (toBinary i d) \<Longrightarrow> b < 2"
  by (auto simp: toBinary_def)

lemma toBinary_inj:
  "i < 2 ^ d \<Longrightarrow> k < 2 ^ d \<Longrightarrow> toBinary i d = toBinary k d \<Longrightarrow> i = k"
proof (induction d arbitrary: i k)
  case 0
  then show ?case by simp
next
  case (Suc d)
  have "toBinary (i div 2) d = toBinary (k div 2) d" and m: "i mod 2 = k mod 2"
    using Suc.prems(3) by (simp_all add: toBinary_Suc_lsb)
  moreover have "i div 2 < 2 ^ d" and "k div 2 < 2 ^ d" using Suc.prems(1,2) by simp_all
  ultimately have "i div 2 = k div 2" using Suc.IH by blast
  then show ?case using m by (metis div_mult_mod_eq)
qed

lemma basisZ_zip:
  "length w = length x \<Longrightarrow> basisZ w x = prod_list (map2 chi w x)"
proof -
  assume l: "length w = length x"
  have "map (\<lambda>j. chi (w ! j) (x ! j)) [0..<length w] = map2 chi w x"
    using l by (intro nth_equalityI) simp_all
  then show ?thesis by (simp add: basisZ_def)
qed

lemma chi_bits: "a < 2 \<Longrightarrow> b < 2 \<Longrightarrow> chi (int a) (int b) = (if a = b then 1 else 0)"
proof -
  assume "a < 2" and "b < 2"
  then have "(a = 0 \<or> a = 1) \<and> (b = 0 \<or> b = 1)" by auto
  then show ?thesis by (auto simp: chi_def)
qed

lemma basisZ_bits:
  assumes "length w = length x" and "\<forall>b \<in> set w. b < 2" and "\<forall>b \<in> set x. b < 2"
  shows "basisZ (map int w) (map int x) = (if w = x then 1 else 0)"
proof -
  have "prod_list (map2 chi (map int w) (map int x)) = (if w = x then 1 else 0)"
    using assms
  proof (induction w x rule: list_induct2)
    case Nil
    then show ?case by simp
  next
    case (Cons a w b x)
    then show ?case by (simp add: chi_bits)
  qed
  then show ?thesis using assms(1) by (simp add: basisZ_zip)
qed

lemma basisZ_vertices:
  assumes "i < 2 ^ d" and "k < 2 ^ d"
  shows "basisZ (map int (toBinary k d)) (map int (toBinary i d)) = (if k = i then 1 else 0)"
proof -
  have "basisZ (map int (toBinary k d)) (map int (toBinary i d))
        = (if toBinary k d = toBinary i d then 1 else 0)"
    by (rule basisZ_bits) (auto dest: toBinary_bits)
  then show ?thesis using toBinary_inj [OF assms(2) assms(1)] by auto
qed

lemma sum_list_delta:
  "i < n \<Longrightarrow> (\<Sum>k\<leftarrow>[0..<n]. if k = i then f k else (0::int)) = f i"
proof (induction n)
  case 0
  then show ?case by simp
next
  case (Suc n)
  show ?case
  proof (cases "i = n")
    case True
    have "(\<Sum>k\<leftarrow>[0..<n]. if k = i then f k else (0::int)) = (\<Sum>k\<leftarrow>[0..<n]. 0)"
      using True by (intro arg_cong [where f = sum_list] map_cong) auto
    then show ?thesis using True by simp
  next
    case False
    then show ?thesis using Suc by simp
  qed
qed

lemma mleZ_vertex:
  assumes "i < 2 ^ d"
  shows "mleZ values d (map int (toBinary i d)) = (if i < length values then values ! i else 0)"
proof -
  have "mleZ values d (map int (toBinary i d))
        = (\<Sum>k\<leftarrow>[0..<2 ^ d]. if k = i then (if k < length values then values ! k else 0) else 0)"
    unfolding mleZ_def
    by (intro arg_cong [where f = sum_list] map_cong refl)
       (simp add: basisZ_vertices [OF assms])
  then show ?thesis using assms by (simp add: sum_list_delta)
qed

lemma Field_bits:
  assumes "1 < p"
  shows "map (\<lambda>e. Field p (int e)) (toBinary i d) = map int (toBinary i d)"
proof (rule map_cong [OF refl])
  fix b assume "b \<in> set (toBinary i d)"
  then have "b < 2" by (rule toBinary_bits)
  then show "Field p (int b) = int b" using assms by (simp add: Field_def)
qed

text \<open>
  Claim C4. For a non-empty table of field elements, \<open>getUnivariateLDE\<close> at the
  point \<open>Field(i)\<close> is \<open>values[i]\<close> for every index \<open>i\<close> of the table, and
  \<open>getMultilinearLDE\<close> at the vertex that \<open>toBinary\<close> gives for \<open>i\<close> (most
  significant bit first) is \<open>values[i]\<close> when \<open>i\<close> is below the length of the table
  and zero for the other vertices of the hypercube. The table is a JavaScript array, so
  its length is below the order of the field.
\<close>

theorem node_interpolation_exactness:
  assumes "values \<noteq> []" and "int (length values) < p" and "list_all (is_field p) values"
  shows "(\<forall>i < length values. getUnivariateLDE p values (Field p (int i)) = Inr (values ! i))
       \<and> (\<forall>i < 2 ^ ceil_log2 (length values).
             getMultilinearLDE p values
               (map (\<lambda>e. Field p (int e)) (toBinary i (ceil_log2 (length values))))
             = Inr (if i < length values then values ! i else 0))"
proof (intro conjI allI impI)
  fix i :: nat assume i: "i < length values"
  then have "Field p (int i) = int i" using assms(2) by (simp add: Field_def)
  moreover have "Field p (int (length values)) = int (length values)"
    using assms(2) by (simp add: Field_def)
  ultimately show "getUnivariateLDE p values (Field p (int i)) = Inr (values ! i)"
    using i assms(1) by (simp add: getUnivariateLDE_def Field_lessThan_def Field_toBigInt_def)
next
  let ?d = "ceil_log2 (length values)"
  fix i :: nat assume i: "i < 2 ^ ?d"
  have p1: "1 < p" using assms(1,2) by (cases "values") simp_all
  have "getMultilinearLDE p values (map (\<lambda>e. Field p (int e)) (toBinary i ?d))
        = Inr (mleZ values ?d (map (\<lambda>e. Field p (int e)) (toBinary i ?d)) mod p)"
    by (rule getMultilinearLDE_mleZ) (simp_all add: assms(1))
  also have "\<dots> = Inr (mleZ values ?d (map int (toBinary i ?d)) mod p)"
    by (simp add: Field_bits [OF p1])
  also have "\<dots> = Inr ((if i < length values then values ! i else 0) mod p)"
    by (simp add: mleZ_vertex [OF i])
  also have "\<dots> = Inr (if i < length values then values ! i else 0)"
    using assms(3) p1 by (auto simp: list_all_length is_field_def)
  finally show "getMultilinearLDE p values (map (\<lambda>e. Field p (int e)) (toBinary i ?d))
        = Inr (if i < length values then values ! i else 0)" .
qed

theorem node_interpolation_exactness_witness:
  "[104, 105, 7] \<noteq> ([] :: int list) \<and> int (length [104, 105, 7 :: int]) < 257
   \<and> list_all (is_field 257) [104, 105, 7]
   \<and> getUnivariateLDE 257 [104, 105, 7] (Field 257 (int 2)) = Inr 7
   \<and> getMultilinearLDE 257 [104, 105, 7] (map (\<lambda>e. Field 257 (int e)) (toBinary 1 2)) = Inr 105
   \<and> getMultilinearLDE 257 [104, 105, 7] (map (\<lambda>e. Field 257 (int e)) (toBinary 3 2)) = Inr 0"
proof -
  have h1: "[104, 105, 7] \<noteq> ([] :: int list)" by simp
  have h2: "int (length [104, 105, 7 :: int]) < 257" by simp
  have h3: "list_all (is_field 257) [104, 105, 7]" by (simp add: is_field_def)
  have d: "ceil_log2 (length [104, 105, 7 :: int]) = 2" by code_simp
  note t = node_interpolation_exactness [OF h1 h2 h3, unfolded d]
  have u: "getUnivariateLDE 257 [104, 105, 7] (Field 257 (int 2)) = Inr 7"
    using t [THEN conjunct1, rule_format, of 2] by simp
  have m1: "getMultilinearLDE 257 [104, 105, 7] (map (\<lambda>e. Field 257 (int e)) (toBinary 1 2))
            = Inr 105"
    using t [THEN conjunct2, rule_format, of 1] by simp
  have m3: "getMultilinearLDE 257 [104, 105, 7] (map (\<lambda>e. Field 257 (int e)) (toBinary 3 2))
            = Inr 0"
    using t [THEN conjunct2, rule_format, of 3] by simp
  show ?thesis by (intro conjI h1 h2 h3 u m1 m3)
qed

section \<open>Facts about the binary vectors\<close>

lemma toBinary_zero: "toBinary 0 d = replicate d 0"
  by (induction d) (simp_all add: toBinary_Suc_msb toBinary_def)

lemma toBinary_add_pow: "toBinary (i + 2 ^ d) d = toBinary i d"
proof (induction d arbitrary: i)
  case 0
  then show ?case by (simp add: toBinary_def)
next
  case (Suc d)
  have "(i + 2 ^ Suc d) div 2 = i div 2 + 2 ^ d" by simp
  moreover have "(i + 2 ^ Suc d) mod 2 = i mod 2" by simp
  ultimately show ?case using Suc.IH [of "i div 2"] by (simp add: toBinary_Suc_lsb add.commute)
qed

lemma msb_high: "i < 2 ^ k \<Longrightarrow> (i + 2 ^ k) div 2 ^ k mod 2 = (1::nat)"
  by (simp add: div_add_self2)

lemma bvecs_0: "bvecs 0 = [[]]"
  by (simp add: bvecs_def toBinary_def)

lemma bvecs_Suc: "bvecs (Suc k) = map ((#) 0) (bvecs k) @ map ((#) 1) (bvecs k)"
proof -
  have split: "[0..<2 ^ Suc k] = [0..<2 ^ k] @ map (\<lambda>i. i + 2 ^ k) [0..<2 ^ k]"
  proof -
    have "[0..<2 ^ k + 2 ^ k] = [0..<2 ^ k] @ [2 ^ k..<2 ^ k + 2 ^ k]"
      by (rule upt_add_eq_append) simp
    moreover have "[2 ^ k..<2 ^ k + 2 ^ k] = map (\<lambda>i. i + 2 ^ k) [0..<2 ^ k]"
      using map_add_upt [of "2 ^ k" "2 ^ k"] by (simp add: add.commute)
    ultimately show ?thesis by (simp add: mult_2)
  qed
  have low: "map (\<lambda>i. map int (toBinary i (Suc k))) [0..<2 ^ k]
             = map ((#) 0) (map (\<lambda>i. map int (toBinary i k)) [0..<2 ^ k])"
    by (simp add: toBinary_Suc_msb)
  have high: "map (\<lambda>i. map int (toBinary (i + 2 ^ k) (Suc k))) [0..<2 ^ k]
             = map ((#) 1) (map (\<lambda>i. map int (toBinary i k)) [0..<2 ^ k])"
    by (simp add: toBinary_Suc_msb toBinary_add_pow msb_high)
  show ?thesis
    unfolding bvecs_def split using low high by (simp add: comp_def)
qed

lemma length_bvecs [simp]: "length (bvecs k) = 2 ^ k"
  by (simp add: bvecs_def)

lemma bvecs_length: "b \<in> set (bvecs k) \<Longrightarrow> length b = k"
  by (auto simp: bvecs_def)

lemma padStart_snoc: "padStart (Suc d) (s @ [c]) = padStart d s @ [c]"
  by (simp add: padStart_def)

lemma Field_of_char_digits:
  assumes "1 < p"
  shows "Field_of_char p (CHR ''0'') = 0" and "Field_of_char p (CHR ''1'') = 1"
    and "Field_of_char p (CHR '' '') = 0"
  using assms by (simp_all add: Field_of_char_def Field_def)

lemma binary_string_vertex:
  assumes "1 < p" and "1 \<le> d" and "i < 2 ^ d"
  shows "map (Field_of_char p) (padStart d (toString2 i)) = map int (toBinary i d)"
  using assms(2,3)
proof (induction d arbitrary: i rule: nat_induct_at_least)
  case base
  then have "i = 0 \<or> i = 1" by auto
  then show ?case
    by (auto simp: toString2.simps [of i] padStart_def Field_of_char_digits [OF assms(1)]
          toBinary_def)
next
  case (Suc d)
  show ?case
  proof (cases "i < 2")
    case True
    then have i: "i = 0 \<or> i = 1" by auto
    have "toBinary i (Suc d) = replicate d 0 @ [i]"
      using i by (auto simp: toBinary_Suc_lsb toBinary_zero)
    moreover have "map (Field_of_char p) (padStart (Suc d) (toString2 i))
                   = replicate d 0 @ [int i]"
      using i by (auto simp: toString2.simps [of i] padStart_def
                     Field_of_char_digits [OF assms(1)])
    ultimately show ?thesis by simp
  next
    case False
    have half: "i div 2 < 2 ^ d" using Suc.prems by simp
    have "toString2 i = toString2 (i div 2) @ [if i mod 2 = 0 then CHR ''0'' else CHR ''1'']"
      using False by (simp add: toString2.simps [of i])
    then have "map (Field_of_char p) (padStart (Suc d) (toString2 i))
               = map (Field_of_char p) (padStart d (toString2 (i div 2))) @ [int (i mod 2)]"
      by (auto simp: padStart_snoc Field_of_char_digits [OF assms(1)])
    also have "\<dots> = map int (toBinary (i div 2) d) @ [int (i mod 2)]"
      using Suc.IH [OF half] by simp
    finally show ?thesis by (simp add: toBinary_Suc_lsb)
  qed
qed

lemma getBinaryVectors_sc_bvecs:
  assumes "1 < p" and "1 \<le> d"
  shows "getBinaryVectors_sc p d = bvecs d"
  unfolding getBinaryVectors_sc_def bvecs_def
  by (rule map_cong [OF refl]) (simp add: binary_string_vertex [OF assms])

lemma getBinaryVectors_bvecs:
  assumes "1 < p" and "1 \<le> d"
  shows "getBinaryVectors p d = bvecs d"
  using assms by (simp add: getBinaryVectors_def getBinaryVectors_sc_bvecs)

section \<open>The extension is linear in each coordinate\<close>

lemma chi_linear: "chi a x = (1 - x) * chi a 0 + x * chi a 1"
  by (simp add: chi_def algebra_simps)

lemma prod_zip_linear:
  "length w = length pre + 1 + length suf \<Longrightarrow>
   prod_list (map2 chi w (pre @ x # suf))
     = (1 - x) * prod_list (map2 chi w (pre @ 0 # suf))
       + x * prod_list (map2 chi w (pre @ 1 # suf))"
proof (induction pre arbitrary: w)
  case Nil
  then obtain a w' where w: "w = a # w'" by (cases w) auto
  have "chi a x * prod_list (map2 chi w' suf)
        = (1 - x) * (chi a 0 * prod_list (map2 chi w' suf))
          + x * (chi a 1 * prod_list (map2 chi w' suf))"
    by (subst chi_linear [of a x]) (simp add: algebra_simps)
  then show ?case by (simp add: w)
next
  case (Cons b pre)
  then obtain a w' where w: "w = a # w'" by (cases w) auto
  then have "length w' = length pre + 1 + length suf" using Cons.prems by simp
  then have IH: "prod_list (map2 chi w' (pre @ x # suf))
     = (1 - x) * prod_list (map2 chi w' (pre @ 0 # suf))
       + x * prod_list (map2 chi w' (pre @ 1 # suf))"
    by (rule Cons.IH)
  have "chi a b * prod_list (map2 chi w' (pre @ x # suf))
        = (1 - x) * (chi a b * prod_list (map2 chi w' (pre @ 0 # suf)))
          + x * (chi a b * prod_list (map2 chi w' (pre @ 1 # suf)))"
    by (subst IH) (simp add: algebra_simps)
  then show ?case by (simp add: w)
qed

lemma basisZ_linear:
  assumes "length w = length pre + 1 + length suf"
  shows "basisZ w (pre @ x # suf)
         = (1 - x) * basisZ w (pre @ 0 # suf) + x * basisZ w (pre @ 1 # suf)"
  using assms prod_zip_linear [OF assms, of x] by (simp add: basisZ_zip)

lemma sum_list_linear:
  "(\<And>b. b \<in> set bs \<Longrightarrow> f b = c * g b + e * h b) \<Longrightarrow>
     sum_list (map f bs) = c * sum_list (map g bs) + e * sum_list (map h (bs :: 'b list))"
  for c e :: int
proof (induction bs)
  case Nil
  then show ?case by simp
next
  case (Cons b bs)
  then show ?case by (simp add: algebra_simps)
qed

lemma mleZ_linear:
  assumes "d = length pre + 1 + length suf"
  shows "mleZ values d (pre @ x # suf)
         = (1 - x) * mleZ values d (pre @ 0 # suf) + x * mleZ values d (pre @ 1 # suf)"
  unfolding mleZ_def
proof (rule sum_list_linear)
  fix i :: nat
  have "basisZ (map int (toBinary i d)) (pre @ x # suf)
        = (1 - x) * basisZ (map int (toBinary i d)) (pre @ 0 # suf)
          + x * basisZ (map int (toBinary i d)) (pre @ 1 # suf)"
    by (rule basisZ_linear) (simp add: assms)
  then have "values ! i * basisZ (map int (toBinary i d)) (pre @ x # suf)
        = (1 - x) * (values ! i * basisZ (map int (toBinary i d)) (pre @ 0 # suf))
          + x * (values ! i * basisZ (map int (toBinary i d)) (pre @ 1 # suf))"
    by (simp only:) (simp add: algebra_simps)
  then show "(if i < length values then values ! i * basisZ (map int (toBinary i d)) (pre @ x # suf) else 0)
       = (1 - x) * (if i < length values then values ! i * basisZ (map int (toBinary i d)) (pre @ 0 # suf) else 0)
         + x * (if i < length values then values ! i * basisZ (map int (toBinary i d)) (pre @ 1 # suf) else 0)"
    by simp
qed

lemma hsum_0: "hsum values d pre 0 = mleZ values d pre"
  by (simp add: hsum_def bvecs_0)

lemma hsum_Suc:
  "hsum values d pre (Suc k) = hsum values d (pre @ [0]) k + hsum values d (pre @ [1]) k"
  by (simp add: hsum_def bvecs_Suc comp_def)

lemma hsum_linear:
  assumes "d = length pre + 1 + k"
  shows "hsum values d (pre @ [x]) k
         = (1 - x) * hsum values d (pre @ [0]) k + x * hsum values d (pre @ [1]) k"
  unfolding hsum_def
proof (rule sum_list_linear)
  fix b assume "b \<in> set (bvecs k)"
  then have "length b = k" by (rule bvecs_length)
  then have "mleZ values d (pre @ x # b)
             = (1 - x) * mleZ values d (pre @ 0 # b) + x * mleZ values d (pre @ 1 # b)"
    using assms by (intro mleZ_linear) simp
  then show "mleZ values d ((pre @ [x]) @ b)
             = (1 - x) * mleZ values d ((pre @ [0]) @ b) + x * mleZ values d ((pre @ [1]) @ b)"
    by simp
qed

lemma hsum_all_vertices:
  assumes "length values \<le> 2 ^ d"
  shows "hsum values d [] d = sum_list values"
proof -
  let ?n = "length values"
  have "hsum values d [] d
        = (\<Sum>i\<leftarrow>[0..<2 ^ d]. if i < ?n then values ! i else 0)"
    unfolding hsum_def bvecs_def
    by (simp add: comp_def, intro arg_cong [where f = sum_list] map_cong refl)
       (simp add: mleZ_vertex)
  also have "[0..<2 ^ d] = [0..<?n] @ [?n..<2 ^ d]"
    using assms by (metis le_add_diff_inverse upt_add_eq_append zero_le)
  also have "(\<Sum>i\<leftarrow>[0..<?n] @ [?n..<2 ^ d]. if i < ?n then values ! i else 0)
             = (\<Sum>i\<leftarrow>[0..<?n]. values ! i) + (\<Sum>i\<leftarrow>[?n..<2 ^ d]. 0)"
  proof -
    have a: "map (\<lambda>i. if i < ?n then values ! i else 0) [0..<?n] = map (\<lambda>i. values ! i) [0..<?n]"
      by (rule map_cong) simp_all
    have b: "map (\<lambda>i. if i < ?n then values ! i else 0) [?n..<2 ^ d] = map (\<lambda>i. 0) [?n..<2 ^ d]"
      by (rule map_cong) simp_all
    show ?thesis by (simp only: map_append sum_list_append a b)
  qed
  also have "\<dots> = sum_list values"
    by (simp add: map_nth)
  finally show ?thesis .
qed

section \<open>Facts about the sums of the Prover\<close>

lemma forE_map: "forE (map h js) s body = forE js s (\<lambda>j. body (h j))"
  by (induction js arbitrary: s) (simp_all split: sum.splits)

lemma forE_nth: "forE [0..<length xs] s (\<lambda>i. F (xs ! i)) = forE xs s F"
proof (induction xs arbitrary: s)
  case Nil
  then show ?case by simp
next
  case (Cons x xs)
  have "[0..<length (x # xs)] = 0 # map Suc [0..<length xs]"
    by (simp add: upt_conv_Cons map_Suc_upt del: upt_Suc)
  then show ?case using Cons.IH by (simp add: forE_map del: upt_Suc split: sum.splits)
qed

lemma forE_append:
  "forE (xs @ ys) s body = (case forE xs s body of Inl e \<Rightarrow> Inl e | Inr s' \<Rightarrow> forE ys s' body)"
  by (induction xs arbitrary: s) (simp_all split: sum.splits)

lemma sum_of_extensions:
  assumes "g \<noteq> []" and "\<And>x. x \<in> set xs \<Longrightarrow> length x = ceil_log2 (length g)"
  shows "forE xs (Field p 0) (\<lambda>x accumulator.
            case getMultilinearLDE p g x of
              Inl e \<Rightarrow> Inl e
            | Inr t \<Rightarrow> Inr (Field_add p accumulator t))
         = Inr ((\<Sum>x\<leftarrow>xs. mleZ g (ceil_log2 (length g)) x) mod p)"
proof -
  let ?d = "ceil_log2 (length g)"
  let ?f = "\<lambda>x acc. (acc + mleZ g ?d x mod p) mod p"
  have "forE xs (Field p 0) (\<lambda>x accumulator.
            case getMultilinearLDE p g x of
              Inl e \<Rightarrow> Inl e
            | Inr t \<Rightarrow> Inr (Field_add p accumulator t)) = Inr (fold ?f xs (Field p 0))"
    by (rule forE_pure) (simp add: getMultilinearLDE_mleZ [OF assms(1)] assms(2) Field_add_def)
  moreover have "fold ?f xs (Field p 0) = fold ?f xs (Field p 0) mod p"
    by (rule fold_mod_fixed [symmetric]) (simp add: Field_def)
  moreover have "fold ?f xs (Field p 0) mod p
                 = (Field p 0 + (\<Sum>x\<leftarrow>xs. mleZ g ?d x mod p)) mod p"
    by (rule fold_add_mod)
  moreover have "\<dots> = (\<Sum>x\<leftarrow>xs. mleZ g ?d x mod p) mod p"
    by (simp add: Field_def)
  moreover have "\<dots> = (\<Sum>x\<leftarrow>xs. mleZ g ?d x) mod p"
    by (rule sum_list_mod_cong) simp
  ultimately show ?thesis by simp
qed

lemma getProposedSum_hsum:
  assumes "1 < p" and "1 \<le> v" and "g \<noteq> []" and "ceil_log2 (length g) = v"
  shows "getProposedSum p \<lparr>P_v = v, P_g = g, P_r = []\<rparr> = Inr (hsum g v [] v mod p)"
    and "getProposedSum_sc p \<lparr>P_v = v, P_g = g, P_r = []\<rparr> = Inr (hsum g v [] v mod p)"
proof -
  have len: "\<And>x. x \<in> set (bvecs v) \<Longrightarrow> length x = ceil_log2 (length g)"
    using assms(4) by (simp add: bvecs_length)
  have "forE (bvecs v) (Field p 0) (\<lambda>x accumulator.
            case getMultilinearLDE p g x of
              Inl e \<Rightarrow> Inl e
            | Inr t \<Rightarrow> Inr (Field_add p accumulator t))
         = Inr (hsum g v [] v mod p)"
    using sum_of_extensions [OF assms(3) len, of "bvecs v" p] assms(4) by (simp add: hsum_def)
  then have loop: "forE [0..<length (bvecs v)] (Field p 0) (\<lambda>i accumulator.
            case getMultilinearLDE p g (bvecs v ! i) of
              Inl e \<Rightarrow> Inl e
            | Inr t \<Rightarrow> Inr (Field_add p accumulator t))
         = Inr (hsum g v [] v mod p)"
    by (simp only: forE_nth [of "bvecs v" "Field p 0" "\<lambda>x accumulator.
            case getMultilinearLDE p g x of
              Inl e \<Rightarrow> Inl e
            | Inr t \<Rightarrow> Inr (Field_add p accumulator t)"])
  show "getProposedSum p \<lparr>P_v = v, P_g = g, P_r = []\<rparr> = Inr (hsum g v [] v mod p)"
    using loop by (simp add: getProposedSum_def getBinaryVectors_bvecs [OF assms(1,2)] Let_def)
  show "getProposedSum_sc p \<lparr>P_v = v, P_g = g, P_r = []\<rparr> = Inr (hsum g v [] v mod p)"
    using loop by (simp add: getProposedSum_sc_def getBinaryVectors_sc_bvecs [OF assms(1,2)] Let_def)
qed

lemma addRoundTerms_mleZ:
  assumes "g \<noteq> []" and "1 < p" and "length r + 1 + length vec = ceil_log2 (length g)"
  shows "addRoundTerms p g r vec (s0, s1)
         = Inr ((s0 + mleZ g (ceil_log2 (length g)) (r @ 0 # vec)) mod p,
                (s1 + mleZ g (ceil_log2 (length g)) (r @ 1 # vec)) mod p)"
proof -
  have f: "Field p 0 = 0" "Field p 1 = 1" using assms(2) by (simp_all add: Field_def)
  have a: "getMultilinearLDE p g (r @ 0 # vec)
           = Inr (mleZ g (ceil_log2 (length g)) (r @ 0 # vec) mod p)"
    by (rule getMultilinearLDE_mleZ [OF assms(1)]) (use assms(3) in simp)
  have b: "getMultilinearLDE p g (r @ 1 # vec)
           = Inr (mleZ g (ceil_log2 (length g)) (r @ 1 # vec) mod p)"
    by (rule getMultilinearLDE_mleZ [OF assms(1)]) (use assms(3) in simp)
  show ?thesis
    by (simp add: addRoundTerms_def f a b Field_add_def mod_add_right_eq)
qed

lemma round_sums_acc:
  assumes "g \<noteq> []" and "1 < p"
    and "\<And>vec. vec \<in> set vecs \<Longrightarrow> length r + 1 + length vec = ceil_log2 (length g)"
    and "s0 mod p = s0" and "s1 mod p = s1"
  shows "forE vecs (s0, s1) (addRoundTerms p g r)
         = Inr ((s0 + (\<Sum>vec\<leftarrow>vecs. mleZ g (ceil_log2 (length g)) (r @ 0 # vec))) mod p,
                (s1 + (\<Sum>vec\<leftarrow>vecs. mleZ g (ceil_log2 (length g)) (r @ 1 # vec))) mod p)"
  using assms(3,4,5)
proof (induction vecs arbitrary: s0 s1)
  case Nil
  then show ?case by simp
next
  case (Cons vec vecs)
  let ?d = "ceil_log2 (length g)"
  let ?t0 = "(s0 + mleZ g ?d (r @ 0 # vec)) mod p"
  let ?t1 = "(s1 + mleZ g ?d (r @ 1 # vec)) mod p"
  have "length r + 1 + length vec = ceil_log2 (length g)"
    by (rule Cons.prems(1)) simp
  then have step: "addRoundTerms p g r vec (s0, s1) = Inr (?t0, ?t1)"
    by (rule addRoundTerms_mleZ [OF assms(1,2)])
  have rest: "\<And>w. w \<in> set vecs \<Longrightarrow> length r + 1 + length w = ceil_log2 (length g)"
    by (rule Cons.prems(1)) simp
  have "forE vecs (?t0, ?t1) (addRoundTerms p g r)
        = Inr ((?t0 + (\<Sum>vec\<leftarrow>vecs. mleZ g ?d (r @ 0 # vec))) mod p,
               (?t1 + (\<Sum>vec\<leftarrow>vecs. mleZ g ?d (r @ 1 # vec))) mod p)"
    by (rule Cons.IH [OF rest]) simp_all
  then show ?case by (simp add: step mod_add_left_eq add.assoc)
qed

lemma round_sums:
  assumes "g \<noteq> []" and "1 < p" and "length r + 1 + k = ceil_log2 (length g)"
  shows "forE (bvecs k) (Field p 0, Field p 0) (addRoundTerms p g r)
         = Inr (hsum g (ceil_log2 (length g)) (r @ [0]) k mod p,
                hsum g (ceil_log2 (length g)) (r @ [1]) k mod p)"
proof -
  have f: "Field p 0 = 0" using assms(2) by (simp add: Field_def)
  have len: "\<And>vec. vec \<in> set (bvecs k) \<Longrightarrow> length r + 1 + length vec = ceil_log2 (length g)"
    using assms(3) by (simp add: bvecs_length)
  have "forE (bvecs k) (0, 0) (addRoundTerms p g r)
         = Inr ((0 + (\<Sum>vec\<leftarrow>bvecs k. mleZ g (ceil_log2 (length g)) (r @ 0 # vec))) mod p,
                (0 + (\<Sum>vec\<leftarrow>bvecs k. mleZ g (ceil_log2 (length g)) (r @ 1 # vec))) mod p)"
    by (rule round_sums_acc [OF assms(1,2) len]) simp_all
  then show ?thesis by (simp add: f hsum_def)
qed

lemma bvecs_nonempty: "bvecs k \<noteq> []"
  by (simp add: bvecs_def)

lemma getRoundJPolynomial_hsum:
  assumes "1 < p" and "g \<noteq> []" and "ceil_log2 (length g) = v"
    and "P_v P = v" and "P_g P = g"
    and "r' = (case r_prev of Some c \<Rightarrow> P_r P @ [c] | None \<Rightarrow> P_r P)"
    and "length r' + 1 + k = v" and "r' = [] \<longleftrightarrow> r_prev = None"
  shows "getRoundJPolynomial p P r_prev
         = (Inr [hsum g v (r' @ [0]) k mod p, hsum g v (r' @ [1]) k mod p], P\<lparr>P_r := r'\<rparr>)"
proof -
  let ?P1 = "case r_prev of Some c \<Rightarrow> P\<lparr>P_r := P_r P @ [c]\<rparr> | None \<Rightarrow> P"
  have P1: "?P1 = P\<lparr>P_r := r'\<rparr>" using assms(6) by (cases r_prev) simp_all
  have sums: "(if getBinaryVectors p k \<noteq> []
               then forE (getBinaryVectors p k) (Field p 0, Field p 0) (addRoundTerms p g r')
               else addRoundTerms p g r' [] (Field p 0, Field p 0))
              = Inr (hsum g v (r' @ [0]) k mod p, hsum g v (r' @ [1]) k mod p)"
  proof (cases "k = 0")
    case True
    have d: "length r' + 1 + length ([] :: int list) = ceil_log2 (length g)"
      using True assms(3,7) by simp
    have f: "Field p 0 = 0" using assms(1) by (simp add: Field_def)
    show ?thesis
      using True addRoundTerms_mleZ [OF assms(2,1) d, of 0 0] assms(3)
      by (simp add: getBinaryVectors_def f hsum_0)
  next
    case False
    then have k: "1 \<le> k" by simp
    have d: "length r' + 1 + k = ceil_log2 (length g)" using assms(3,7) by simp
    show ?thesis
      using round_sums [OF assms(2,1) d] assms(3)
      by (simp add: getBinaryVectors_bvecs [OF assms(1) k] bvecs_nonempty)
  qed
  have chk: "\<not> v \<le> length r'" "\<not> (length r' = 0 \<and> r_prev \<noteq> None)"
    "\<not> (length r' \<noteq> 0 \<and> r_prev = None)"
    using assms(7,8) by auto
  have kk: "v - (length r' + 1) = k" using assms(7) by simp
  show ?thesis
    unfolding getRoundJPolynomial_def P1 Let_def
    using chk sums by (auto simp: assms(4,5) kk simp del: One_nat_def split: if_splits)
qed

text \<open>
  Claim C5, amended. For every \<open>v \<ge> 1\<close> and every table \<open>g\<close> whose length lies
  above \<open>2 ^ (v - 1)\<close> and at most at \<open>2 ^ v\<close>, the construction of the Prover
  succeeds and \<open>getProposedSum\<close> returns the sum of the entries of \<open>g\<close> in the
  field: the vertices beyond the length of \<open>g\<close> contribute zero.
\<close>

theorem proposed_sum_of_full_table:
  assumes "1 < p" and "1 \<le> v" and "2 ^ (v - 1) < length g" and "length g \<le> 2 ^ v"
  shows "new_Prover g v = Inr \<lparr>P_v = v, P_g = g, P_r = []\<rparr>
       \<and> getProposedSum_sc p \<lparr>P_v = v, P_g = g, P_r = []\<rparr> = Inr (sum_list g mod p)
       \<and> getProposedSum p \<lparr>P_v = v, P_g = g, P_r = []\<rparr> = Inr (sum_list g mod p)"
proof -
  have d: "ceil_log2 (length g) = v" using assms(2,3,4) by (rule ceil_log2_eq)
  have ne: "g \<noteq> []" using assms(3) by auto
  have "hsum g v [] v = sum_list g" using assms(4) by (rule hsum_all_vertices)
  then show ?thesis
    using getProposedSum_hsum [OF assms(1,2) ne d] assms(4) by (simp add: new_Prover_def)
qed

theorem proposed_sum_of_full_table_witness:
  "(1::int) < 257 \<and> (1::nat) \<le> 3 \<and> 2 ^ (3 - 1) < length [1, 2, 3, 4, 5, 6, 7 :: int]
   \<and> length [1, 2, 3, 4, 5, 6, 7 :: int] \<le> 2 ^ 3
   \<and> new_Prover [1, 2, 3, 4, 5, 6, 7] 3 = Inr \<lparr>P_v = 3, P_g = [1, 2, 3, 4, 5, 6, 7], P_r = []\<rparr>
   \<and> getProposedSum_sc 257 \<lparr>P_v = 3, P_g = [1, 2, 3, 4, 5, 6, 7], P_r = []\<rparr> = Inr 28
   \<and> getProposedSum 257 \<lparr>P_v = 3, P_g = [1, 2, 3, 4, 5, 6, 7], P_r = []\<rparr> = Inr 28"
proof -
  have h1: "(1::int) < 257" by simp
  have h2: "(1::nat) \<le> 3" by simp
  have h3: "2 ^ (3 - 1) < length [1, 2, 3, 4, 5, 6, 7 :: int]" by simp
  have h4: "length [1, 2, 3, 4, 5, 6, 7 :: int] \<le> 2 ^ 3" by simp
  show ?thesis
    using h1 h2 h3 h4 proposed_sum_of_full_table [OF h1 h2 h3 h4] by simp
qed

text \<open>
  The claim as the specification states it also covers the shorter tables. The constructor
  accepts the table \<open>[1, 2]\<close> for \<open>v = 2\<close>, and \<open>getProposedSum\<close> then fails:
  \<open>getMultilinearLDE\<close> derives the dimension 1 from the length of the table and rejects
  the vertices of length 2.
\<close>

theorem proposed_sum_short_table_counterexample:
  "(1::nat) \<le> 2 \<and> 1 \<le> length [1, 2 :: int] \<and> length [1, 2 :: int] \<le> 2 ^ 2
   \<and> new_Prover [1, 2] 2 = Inr \<lparr>P_v = 2, P_g = [1, 2], P_r = []\<rparr>
   \<and> getProposedSum_sc 257 \<lparr>P_v = 2, P_g = [1, 2], P_r = []\<rparr> = Inl DimensionMismatchError
   \<and> getProposedSum 257 \<lparr>P_v = 2, P_g = [1, 2], P_r = []\<rparr> = Inl DimensionMismatchError"
  by code_simp

section \<open>The honest run, round by round\<close>

lemma length_honest_prefix [simp]: "length (honest_prefix c j) = j - 1"
  by (simp add: honest_prefix_def)

lemma honest_prefix_Suc: "1 \<le> j \<Longrightarrow> honest_prefix c (Suc j) = honest_prefix c j @ [c j]"
  by (simp add: honest_prefix_def)

lemma honest_prefix_1 [simp]: "honest_prefix c (Suc 0) = []"
  by (simp add: honest_prefix_def)

lemma honest_first_round:
  assumes "1 \<le> v"
  shows "hsum g v (honest_prefix c 1 @ [0]) (v - 1) + hsum g v (honest_prefix c 1 @ [1]) (v - 1)
         = hsum g v [] v"
proof -
  have "v = Suc (v - 1)" using assms by simp
  then have "hsum g v [] v = hsum g v [] (Suc (v - 1))" by simp
  also have "\<dots> = hsum g v ([] @ [0]) (v - 1) + hsum g v ([] @ [1]) (v - 1)"
    by (rule hsum_Suc)
  finally show ?thesis by simp
qed

lemma honest_next_round:
  assumes "2 \<le> j" and "j \<le> v"
  shows "hsum g v (honest_prefix c j @ [0]) (v - j) + hsum g v (honest_prefix c j @ [1]) (v - j)
         = (1 - c (j - 1)) * hsum g v (honest_prefix c (j - 1) @ [0]) (v - (j - 1))
           + c (j - 1) * hsum g v (honest_prefix c (j - 1) @ [1]) (v - (j - 1))"
proof -
  have pre: "honest_prefix c j = honest_prefix c (j - 1) @ [c (j - 1)]"
    using honest_prefix_Suc [of "j - 1" c] assms(1) by simp
  have k: "v - (j - Suc 0) = Suc (v - j)" using assms by simp
  have "hsum g v (honest_prefix c j @ [0]) (v - j) + hsum g v (honest_prefix c j @ [1]) (v - j)
        = hsum g v (honest_prefix c j) (Suc (v - j))"
    by (rule hsum_Suc [symmetric])
  also have "\<dots> = hsum g v (honest_prefix c (j - 1) @ [c (j - 1)]) (v - (j - 1))"
    by (simp add: pre k)
  also have "\<dots> = (1 - c (j - 1)) * hsum g v (honest_prefix c (j - 1) @ [0]) (v - (j - 1))
           + c (j - 1) * hsum g v (honest_prefix c (j - 1) @ [1]) (v - (j - 1))"
    by (rule hsum_linear) (use assms in simp)
  finally show ?thesis .
qed

lemma honest_oracle:
  assumes "1 \<le> v"
  shows "mleZ g v (honest_prefix c (Suc v))
         = (1 - c v) * hsum g v (honest_prefix c v @ [0]) (v - v)
           + c v * hsum g v (honest_prefix c v @ [1]) (v - v)"
proof -
  have "mleZ g v (honest_prefix c (Suc v)) = hsum g v (honest_prefix c v @ [c v]) 0"
    using assms by (simp add: honest_prefix_Suc hsum_0)
  also have "\<dots> = (1 - c v) * hsum g v (honest_prefix c v @ [0]) 0
           + c v * hsum g v (honest_prefix c v @ [1]) 0"
    by (rule hsum_linear) (use assms in simp)
  finally show ?thesis by simp
qed

lemma getUnivariateLDE_two_mod:
  assumes "1 < p" and "is_field p x"
  shows "getUnivariateLDE p [a mod p, b mod p] x = Inr ((a * (1 - x) + b * x) mod p)"
proof -
  have "getUnivariateLDE p [a mod p, b mod p] x
        = Inr ((a mod p * (1 - x) + b mod p * x) mod p)"
    using assms by (intro getUnivariateLDE_two) (simp_all add: is_field_def)
  moreover have "(a mod p * (1 - x) + b mod p * x) mod p = (a * (1 - x) + b * x) mod p"
    by (intro mod_add_cong mod_mult_cong) simp_all
  ultimately show ?thesis by simp
qed

lemma honest_polynomial_at:
  assumes "1 < p" and "is_field p x"
  shows "getUnivariateLDE p (honest_polynomial p g v c j) x
         = Inr (((1 - x) * hsum g v (honest_prefix c j @ [0]) (v - j)
                 + x * hsum g v (honest_prefix c j @ [1]) (v - j)) mod p)"
  unfolding honest_polynomial_def
  by (simp add: getUnivariateLDE_two_mod [OF assms] mult.commute)

lemma forE_steps:
  assumes "\<And>j. a \<le> j \<Longrightarrow> j < b \<Longrightarrow> body j (S j) = Inr (S (Suc j))" and "a \<le> b"
  shows "forE [a..<b] (S a) body = Inr (S b)"
  using assms(2,1)
proof (induction b rule: dec_induct)
  case base
  then show ?case by simp
next
  case (step n)
  have "forE [a..<n] (S a) body = Inr (S n)"
    by (rule step.IH) (simp add: step.prems)
  moreover have "body n (S n) = Inr (S (Suc n))"
    by (rule step.prems) (use step.hyps in simp_all)
  ultimately show ?case using step.hyps(1) by (simp add: forE_append)
qed

lemma honest_prover_round:
  assumes "1 < p" and "g \<noteq> []" and "ceil_log2 (length g) = v" and "1 \<le> j" and "j \<le> v"
  shows "getRoundJPolynomial p \<lparr>P_v = v, P_g = g, P_r = honest_prefix c (j - 1)\<rparr>
           (if j = 1 then None else Some (c (j - 1)))
         = (Inr (honest_polynomial p g v c j), \<lparr>P_v = v, P_g = g, P_r = honest_prefix c j\<rparr>)"
proof -
  define P where "P = \<lparr>P_v = v, P_g = g, P_r = honest_prefix c (j - 1)\<rparr>"
  define a where "a = (if j = 1 then None else Some (c (j - 1)))"
  have sel: "P_v P = v" "P_g P = g" "P_r P = honest_prefix c (j - 1)" by (simp_all add: P_def)
  have r': "honest_prefix c j = (case a of Some x \<Rightarrow> P_r P @ [x] | None \<Rightarrow> P_r P)"
  proof (cases "j = 1")
    case True
    then show ?thesis by (simp add: honest_prefix_def a_def sel)
  next
    case False
    then have "honest_prefix c j = honest_prefix c (j - 1) @ [c (j - 1)]"
      using honest_prefix_Suc [of "j - 1" c] assms(4) by simp
    then show ?thesis using False by (simp add: a_def sel)
  qed
  have len: "length (honest_prefix c j) + 1 + (v - j) = v" using assms(4,5) by simp
  have emp: "honest_prefix c j = [] \<longleftrightarrow> a = None"
    using assms(4) by (auto simp: honest_prefix_def a_def)
  have "getRoundJPolynomial p P a
        = (Inr [hsum g v (honest_prefix c j @ [0]) (v - j) mod p,
                hsum g v (honest_prefix c j @ [1]) (v - j) mod p],
           P\<lparr>P_r := honest_prefix c j\<rparr>)"
    by (rule getRoundJPolynomial_hsum [OF assms(1,2,3) sel(1,2) r' len emp])
  then show ?thesis by (simp add: P_def a_def honest_polynomial_def)
qed

lemma verifyRound_accept:
  assumes "length (V_r V) + 1 \<le> V_v V" and "length g_j \<le> 2"
    and "getUnivariateLDE p g_j (Field p 0) = Inr a"
    and "getUnivariateLDE p g_j (Field p 1) = Inr b"
    and "length (V_r V) = 0 \<Longrightarrow> Field_add p a b = V_proposedSum V"
    and "length (V_r V) \<noteq> 0 \<Longrightarrow> length (V_r V) - 1 < length (V_polynomials V)"
    and "length (V_r V) \<noteq> 0 \<Longrightarrow>
           getUnivariateLDE p (V_polynomials V ! (length (V_r V) - 1))
             (V_r V ! (length (V_r V) - 1)) = Inr (Field_add p a b)"
  shows "verifyRoundJPolynomial p V g_j c
         = Inr (c, V\<lparr>V_r := V_r V @ [c], V_polynomials := V_polynomials V @ [g_j]\<rparr>)"
proof (cases "length (V_r V) = 0")
  case True
  then show ?thesis
    using assms(1,2,3,4) assms(5) [OF True]
    by (simp add: verifyRoundJPolynomial_def verifyRound_def Field_equals_def Let_def)
next
  case False
  have j2: "length (V_r V) + 1 - 2 = length (V_r V) - 1" by simp
  show ?thesis
    using False assms(1,2,3,4) assms(6) [OF False] assms(7) [OF False]
    by (simp add: verifyRoundJPolynomial_def verifyRound_def Field_equals_def Let_def j2
          del: One_nat_def)
qed

lemma honest_verifier_round:
  assumes "1 < p" and "1 \<le> j" and "j \<le> v" and "\<And>k. is_field p (c k)"
  shows "verifyRoundJPolynomial p
           \<lparr>V_v = v, V_proposedSum = hsum g v [] v mod p,
            V_polynomials = map (honest_polynomial p g v c) [1..<j],
            V_r = honest_prefix c j\<rparr>
           (honest_polynomial p g v c j) (c j)
         = Inr (c j,
             \<lparr>V_v = v, V_proposedSum = hsum g v [] v mod p,
              V_polynomials = map (honest_polynomial p g v c) [1..<Suc j],
              V_r = honest_prefix c (Suc j)\<rparr>)"
proof -
  define h0 where "h0 = (\<lambda>j. hsum g v (honest_prefix c j @ [0]) (v - j))"
  define h1 where "h1 = (\<lambda>j. hsum g v (honest_prefix c j @ [1]) (v - j))"
  define V where "V = \<lparr>V_v = v, V_proposedSum = hsum g v [] v mod p,
            V_polynomials = map (honest_polynomial p g v c) [1..<j],
            V_r = honest_prefix c j\<rparr>"
  have sel: "V_v V = v" "V_proposedSum V = hsum g v [] v mod p"
    "V_polynomials V = map (honest_polynomial p g v c) [1..<j]" "V_r V = honest_prefix c j"
    by (simp_all add: V_def)
  have f: "Field p 0 = 0" "Field p 1 = 1" using assms(1) by (simp_all add: Field_def)
  have is01: "is_field p 0" "is_field p 1" using assms(1) by (simp_all add: is_field_def)
  have at0: "getUnivariateLDE p (honest_polynomial p g v c j) (Field p 0) = Inr (h0 j mod p)"
    using honest_polynomial_at [OF assms(1) is01(1), of g v c j] by (simp add: f h0_def)
  have at1: "getUnivariateLDE p (honest_polynomial p g v c j) (Field p 1) = Inr (h1 j mod p)"
    using honest_polynomial_at [OF assms(1) is01(2), of g v c j] by (simp add: f h1_def)
  have total: "Field_add p (h0 j mod p) (h1 j mod p) = (h0 j + h1 j) mod p"
    by (simp add: Field_add_def mod_add_eq)
  have "verifyRoundJPolynomial p V (honest_polynomial p g v c j) (c j)
        = Inr (c j, V\<lparr>V_r := V_r V @ [c j],
                       V_polynomials := V_polynomials V @ [honest_polynomial p g v c j]\<rparr>)"
  proof (rule verifyRound_accept [OF _ _ at0 at1])
    show "length (V_r V) + 1 \<le> V_v V" using assms(2,3) by (simp add: sel)
    show "length (honest_polynomial p g v c j) \<le> 2" by (simp add: honest_polynomial_def)
  next
    assume "length (V_r V) = 0"
    then have j: "j = 1" using assms(2) by (simp add: sel)
    have "h0 1 + h1 1 = hsum g v [] v"
      unfolding h0_def h1_def using assms(3) j by (intro honest_first_round) simp
    then show "Field_add p (h0 j mod p) (h1 j mod p) = V_proposedSum V"
      by (simp add: sel j Field_add_def mod_add_eq del: One_nat_def)
  next
    assume "length (V_r V) \<noteq> 0"
    then show "length (V_r V) - 1 < length (V_polynomials V)" by (simp add: sel)
  next
    assume "length (V_r V) \<noteq> 0"
    then have j2: "2 \<le> j" by (simp add: sel)
    have s: "Suc (j - Suc (Suc 0)) = j - Suc 0" using j2 by simp
    have idx: "V_polynomials V ! (length (V_r V) - 1) = honest_polynomial p g v c (j - 1)"
      using j2 by (simp add: sel nth_map s)
    have ridx: "V_r V ! (length (V_r V) - 1) = c (j - 1)"
      using j2 by (simp add: sel honest_prefix_def s)
    have "getUnivariateLDE p (honest_polynomial p g v c (j - 1)) (c (j - 1))
          = Inr (((1 - c (j - 1)) * h0 (j - 1) + c (j - 1) * h1 (j - 1)) mod p)"
      unfolding h0_def h1_def by (rule honest_polynomial_at [OF assms(1) assms(4)])
    moreover have "h0 j + h1 j = (1 - c (j - 1)) * h0 (j - 1) + c (j - 1) * h1 (j - 1)"
      unfolding h0_def h1_def by (rule honest_next_round [OF j2 assms(3)])
    ultimately show "getUnivariateLDE p (V_polynomials V ! (length (V_r V) - 1))
             (V_r V ! (length (V_r V) - 1)) = Inr (Field_add p (h0 j mod p) (h1 j mod p))"
      by (simp only: idx ridx total)
  qed
  moreover have "honest_prefix c (Suc j) = honest_prefix c j @ [c j]"
    using assms(2) by (rule honest_prefix_Suc)
  moreover have "map (honest_polynomial p g v c) [1..<Suc j]
               = map (honest_polynomial p g v c) [1..<j] @ [honest_polynomial p g v c j]"
    using assms(2) by simp
  ultimately show ?thesis by (simp add: V_def del: upt_Suc)
qed

lemma honest_oracle_query:
  assumes "1 < p" and "g \<noteq> []" and "ceil_log2 (length g) = v" and "1 \<le> v"
    and "\<And>k. is_field p (c k)"
  shows "verifyOracleQueryOfG p
           \<lparr>V_v = v, V_proposedSum = hsum g v [] v mod p,
            V_polynomials = map (honest_polynomial p g v c) [1..<Suc v],
            V_r = honest_prefix c (Suc v)\<rparr> g = Inr ()"
proof -
  define V where "V = \<lparr>V_v = v, V_proposedSum = hsum g v [] v mod p,
            V_polynomials = map (honest_polynomial p g v c) [1..<Suc v],
            V_r = honest_prefix c (Suc v)\<rparr>"
  have sel: "V_v V = v" "V_polynomials V = map (honest_polynomial p g v c) [1..<Suc v]"
    "V_r V = honest_prefix c (Suc v)"
    by (simp_all add: V_def)
  have lens: "length (V_r V) = V_v V" "length (V_polynomials V) = V_v V" "V_polynomials V \<noteq> []"
    using assms(4) by (auto simp: sel)
  have lastp: "last (V_polynomials V) = honest_polynomial p g v c v"
    using assms(4) by (simp add: sel)
  have lastr: "last (V_r V) = c v"
    using assms(4) by (simp add: sel honest_prefix_def)
  have gOfR: "getMultilinearLDE p g (V_r V) = Inr (mleZ g v (honest_prefix c (Suc v)) mod p)"
    using getMultilinearLDE_mleZ [OF assms(2), of "honest_prefix c (Suc v)" p] assms(3)
    by (simp add: sel)
  have g_v: "getUnivariateLDE p (last (V_polynomials V)) (last (V_r V))
             = Inr (((1 - c v) * hsum g v (honest_prefix c v @ [0]) (v - v)
                     + c v * hsum g v (honest_prefix c v @ [1]) (v - v)) mod p)"
    unfolding lastp lastr by (rule honest_polynomial_at [OF assms(1) assms(5)])
  have eq: "mleZ g v (honest_prefix c (Suc v))
            = (1 - c v) * hsum g v (honest_prefix c v @ [0]) (v - v)
              + c v * hsum g v (honest_prefix c v @ [1]) (v - v)"
    by (rule honest_oracle [OF assms(4)])
  have "verifyOracleQueryOfG p V g = Inr ()"
    unfolding verifyOracleQueryOfG_def
    using lens by (simp add: gOfR g_v eq Field_equals_def)
  then show ?thesis by (simp add: V_def)
qed

lemma honest_round:
  assumes "1 < p" and "g \<noteq> []" and "ceil_log2 (length g) = v" and "1 \<le> j" and "j \<le> v"
    and "\<And>k. is_field p (c k)"
  shows "(case honest_state p g v c j of (prover, verifier, r_j) \<Rightarrow>
            case getRoundJPolynomial p prover r_j of
              (Inl e, prover') \<Rightarrow> Inl e
            | (Inr g_j, prover') \<Rightarrow>
                (case verifyRoundJPolynomial p verifier g_j (c j) of
                   Inl e \<Rightarrow> Inl e
                 | Inr (r_j', verifier') \<Rightarrow> Inr (prover', verifier', Some r_j')))
         = Inr (honest_state p g v c (Suc j))"
proof -
  have P: "getRoundJPolynomial p \<lparr>P_v = v, P_g = g, P_r = honest_prefix c (j - 1)\<rparr>
             (if j = 1 then None else Some (c (j - 1)))
           = (Inr (honest_polynomial p g v c j), \<lparr>P_v = v, P_g = g, P_r = honest_prefix c j\<rparr>)"
    by (rule honest_prover_round [OF assms(1,2,3,4,5)])
  have V: "verifyRoundJPolynomial p
             \<lparr>V_v = v, V_proposedSum = hsum g v [] v mod p,
              V_polynomials = map (honest_polynomial p g v c) [1..<j],
              V_r = honest_prefix c j\<rparr>
             (honest_polynomial p g v c j) (c j)
           = Inr (c j,
               \<lparr>V_v = v, V_proposedSum = hsum g v [] v mod p,
                V_polynomials = map (honest_polynomial p g v c) [1..<Suc j],
                V_r = honest_prefix c (Suc j)\<rparr>)"
    by (rule honest_verifier_round [OF assms(1,4,5,6)])
  show ?thesis
    unfolding honest_state_def using assms(4) by (simp add: P V del: upt_Suc One_nat_def)
qed

text \<open>
  Claim C1, amended. For every \<open>v \<ge> 1\<close>, every table \<open>g\<close> whose length lies above
  \<open>2 ^ (v - 1)\<close> and at most at \<open>2 ^ v\<close>, and every sequence of challenges, the
  honest run of the protocol ends in acceptance: the Prover computes the proposed sum
  and each round's polynomial, the Verifier checks each round and then the oracle query,
  and no call throws.
\<close>

theorem sum_check_completeness:
  assumes "1 < p" and "1 \<le> v" and "2 ^ (v - 1) < length g" and "length g \<le> 2 ^ v"
    and "\<And>j. is_field p (challenge j)"
  shows "runner p g v challenge = Inr ()"
proof -
  have d: "ceil_log2 (length g) = v" using assms(2,3,4) by (rule ceil_log2_eq)
  have ne: "g \<noteq> []" using assms(3) by auto
  have new: "new_Prover g v = Inr \<lparr>P_v = v, P_g = g, P_r = []\<rparr>"
    using assms(4) by (simp add: new_Prover_def)
  have proposed: "getProposedSum p \<lparr>P_v = v, P_g = g, P_r = []\<rparr> = Inr (hsum g v [] v mod p)"
    by (rule getProposedSum_hsum(1) [OF assms(1,2) ne d])
  have start: "(\<lparr>P_v = v, P_g = g, P_r = []\<rparr>, new_Verifier (hsum g v [] v mod p) v, None)
               = honest_state p g v challenge 1"
    by (simp add: honest_state_def new_Verifier_def honest_prefix_def)
  let ?body = "\<lambda>j (prover, verifier, r_j).
                  case getRoundJPolynomial p prover r_j of
                    (Inl e, prover') \<Rightarrow> Inl e
                  | (Inr g_j, prover') \<Rightarrow>
                      (case verifyRoundJPolynomial p verifier g_j (challenge j) of
                         Inl e \<Rightarrow> Inl e
                       | Inr (r_j', verifier') \<Rightarrow> Inr (prover', verifier', Some r_j'))"
  have loop: "forE [1..<Suc v] (honest_state p g v challenge 1) ?body
              = Inr (honest_state p g v challenge (Suc v))"
  proof (rule forE_steps)
    fix j assume "1 \<le> j" and "j < Suc v"
    then have "j \<le> v" by simp
    then show "?body j (honest_state p g v challenge j) = Inr (honest_state p g v challenge (Suc j))"
      using honest_round [OF assms(1) ne d \<open>1 \<le> j\<close> _ assms(5)] by simp
  qed simp
  have final: "(case honest_state p g v challenge (Suc v) of
                  (prover, verifier, r_j) \<Rightarrow> verifyOracleQueryOfG p verifier (P_g prover))
               = Inr ()"
    using honest_oracle_query [OF assms(1) ne d assms(2,5)]
    by (simp add: honest_state_def del: upt_Suc)
  show ?thesis
    unfolding runner_def
    by (simp add: new proposed start loop final del: upt_Suc One_nat_def)
qed

theorem sum_check_completeness_witness:
  "(1::int) < 257 \<and> (1::nat) \<le> 3 \<and> 2 ^ (3 - 1) < length [1, 2, 3, 4, 5, 6, 7 :: int]
   \<and> length [1, 2, 3, 4, 5, 6, 7 :: int] \<le> 2 ^ 3
   \<and> (\<forall>j. is_field 257 (int (j * j + 3) mod 257))
   \<and> runner 257 [1, 2, 3, 4, 5, 6, 7] 3 (\<lambda>j. int (j * j + 3) mod 257) = Inr ()"
proof -
  have h1: "(1::int) < 257" by simp
  have h2: "(1::nat) \<le> 3" by simp
  have h3: "2 ^ (3 - 1) < length [1, 2, 3, 4, 5, 6, 7 :: int]" by simp
  have h4: "length [1, 2, 3, 4, 5, 6, 7 :: int] \<le> 2 ^ 3" by simp
  have h5: "\<And>j. is_field 257 (int (j * j + 3) mod 257)" by (simp add: is_field_def)
  have "runner 257 [1, 2, 3, 4, 5, 6, 7] 3 (\<lambda>j. int (j * j + 3) mod 257) = Inr ()"
    by (rule sum_check_completeness [OF h1 h2 h3 h4 h5])
  then show ?thesis using h1 h2 h3 h4 h5 by blast
qed

text \<open>
  The claim as the specification states it also covers the shorter tables and \<open>v = 0\<close>.
  For the table \<open>[1, 2]\<close> and \<open>v = 2\<close> the run ends in the dimension error of
  \<open>getMultilinearLDE\<close>, raised by \<open>getProposedSum\<close> before the first round. For the
  table \<open>[1]\<close> and \<open>v = 0\<close> there is no round, and the oracle query fails on the
  polynomial of the last round, which does not exist.
\<close>

theorem sum_check_short_table_counterexample:
  "[1, 2] \<noteq> ([] :: int list) \<and> length [1, 2 :: int] \<le> 2 ^ 2
   \<and> is_field 257 0
   \<and> runner 257 [1, 2] 2 (\<lambda>j. 0) = Inl DimensionMismatchError
   \<and> [1] \<noteq> ([] :: int list) \<and> length [1 :: int] \<le> 2 ^ 0
   \<and> runner 257 [1] 0 (\<lambda>j. 0) = Inl EmptyInputError"
  by code_simp

section \<open>Calls after the last round\<close>

lemma getRoundJPolynomial_state:
  "snd (getRoundJPolynomial p P a)
   = (case a of Some c \<Rightarrow> P\<lparr>P_r := P_r P @ [c]\<rparr> | None \<Rightarrow> P)"
  by (simp add: getRoundJPolynomial_def Let_def)

lemma proverCalls_state:
  "proverCalls p P as = Inr P' \<Longrightarrow>
     P_v P' = P_v P \<and> P_r P' = P_r P @ List.map_filter (\<lambda>a. a) as"
proof (induction as arbitrary: P)
  case Nil
  then show ?case by (simp add: List.map_filter_simps)
next
  case (Cons a as)
  obtain res P1 where call: "getRoundJPolynomial p P a = (res, P1)"
    by (cases "getRoundJPolynomial p P a")
  then obtain g_j where "res = Inr g_j" and rest: "proverCalls p P1 as = Inr P'"
    using Cons.prems by (cases res) simp_all
  have P1: "P1 = (case a of Some c \<Rightarrow> P\<lparr>P_r := P_r P @ [c]\<rparr> | None \<Rightarrow> P)"
    using getRoundJPolynomial_state [of p P a] call by simp
  have "P_v P' = P_v P1 \<and> P_r P' = P_r P1 @ List.map_filter (\<lambda>a. a) as"
    using rest by (rule Cons.IH)
  then show ?case
    by (cases a) (simp_all add: P1 List.map_filter_simps)
qed

text \<open>
  Claim C7, amended. On a Prover of sum-check-prover.ts that has completed its \<open>v\<close>
  rounds (the first call without a challenge, each later call with one), a further call
  that passes a challenge fails with the round-overflow error; it returns no polynomial
  and raises no other error.
\<close>

theorem round_overflow_after_v_rounds:
  assumes "new_Prover g v = Inr P0" and "length cs + 1 = v"
    and "proverCalls p P0 (None # map Some cs) = Inr P"
  shows "getRoundJPolynomial p P (Some c) = (Inl RoundOverflowError, P\<lparr>P_r := P_r P @ [c]\<rparr>)"
proof -
  have P0: "P_v P0 = v" "P_r P0 = []"
    using assms(1) by (auto simp: new_Prover_def split: if_splits)
  have "List.map_filter (\<lambda>a. a) (None # map Some cs) = cs"
    by (induction cs) (simp_all add: List.map_filter_simps)
  then have "P_v P = v" and "P_r P = cs"
    using proverCalls_state [OF assms(3)] P0 by simp_all
  then show ?thesis
    using assms(2) by (simp add: getRoundJPolynomial_def Let_def)
qed

theorem round_overflow_after_v_rounds_witness:
  "new_Prover [1, 2, 3, 4] 2 = Inr \<lparr>P_v = 2, P_g = [1, 2, 3, 4], P_r = []\<rparr>
   \<and> length [5 :: int] + 1 = 2
   \<and> proverCalls 257 \<lparr>P_v = 2, P_g = [1, 2, 3, 4], P_r = []\<rparr> (None # map Some [5])
       = Inr \<lparr>P_v = 2, P_g = [1, 2, 3, 4], P_r = [5]\<rparr>
   \<and> getRoundJPolynomial 257 \<lparr>P_v = 2, P_g = [1, 2, 3, 4], P_r = [5]\<rparr> (Some 9)
       = (Inl RoundOverflowError, \<lparr>P_v = 2, P_g = [1, 2, 3, 4], P_r = [5, 9]\<rparr>)"
proof -
  have h1: "new_Prover [1, 2, 3, 4] 2 = Inr \<lparr>P_v = 2, P_g = [1, 2, 3, 4], P_r = []\<rparr>"
    by code_simp
  have h2: "length [5 :: int] + 1 = 2" by simp
  have h3: "proverCalls 257 \<lparr>P_v = 2, P_g = [1, 2, 3, 4], P_r = []\<rparr> (None # map Some [5])
            = Inr \<lparr>P_v = 2, P_g = [1, 2, 3, 4], P_r = [5]\<rparr>"
    by code_simp
  have "getRoundJPolynomial 257 \<lparr>P_v = 2, P_g = [1, 2, 3, 4], P_r = [5]\<rparr> (Some 9)
        = (Inl RoundOverflowError,
           \<lparr>P_v = 2, P_g = [1, 2, 3, 4], P_r = [5]\<rparr>\<lparr>P_r := P_r \<lparr>P_v = 2, P_g = [1, 2, 3, 4], P_r = [5]\<rparr> @ [9]\<rparr>)"
    by (rule round_overflow_after_v_rounds [OF h1 h2 h3])
  then show ?thesis using h1 h2 h3 by simp
qed

text \<open>
  The claim as the specification states it covers every further call. A further call
  that passes no challenge does not overflow: for \<open>v = 1\<close> the Prover is in the state
  it started in and returns the polynomial of round 1 again, and for \<open>v = 2\<close> the call
  fails with the missing-challenge error.
\<close>

theorem extra_call_without_challenge_counterexample:
  "new_Prover [1, 2] 1 = Inr \<lparr>P_v = 1, P_g = [1, 2], P_r = []\<rparr>
   \<and> proverCalls 257 \<lparr>P_v = 1, P_g = [1, 2], P_r = []\<rparr> [None]
       = Inr \<lparr>P_v = 1, P_g = [1, 2], P_r = []\<rparr>
   \<and> getRoundJPolynomial 257 \<lparr>P_v = 1, P_g = [1, 2], P_r = []\<rparr> None
       = (Inr [1, 2], \<lparr>P_v = 1, P_g = [1, 2], P_r = []\<rparr>)
   \<and> new_Prover [1, 2, 3, 4] 2 = Inr \<lparr>P_v = 2, P_g = [1, 2, 3, 4], P_r = []\<rparr>
   \<and> proverCalls 257 \<lparr>P_v = 2, P_g = [1, 2, 3, 4], P_r = []\<rparr> [None, Some 5]
       = Inr \<lparr>P_v = 2, P_g = [1, 2, 3, 4], P_r = [5]\<rparr>
   \<and> getRoundJPolynomial 257 \<lparr>P_v = 2, P_g = [1, 2, 3, 4], P_r = [5]\<rparr> None
       = (Inl MissingChallengeError, \<lparr>P_v = 2, P_g = [1, 2, 3, 4], P_r = [5]\<rparr>)"
  by code_simp

section \<open>Which errors a call can raise\<close>

lemma forE_error_origin:
  "forE xs s body = Inl e \<Longrightarrow> \<exists>x s'. x \<in> set xs \<and> body x s' = Inl e"
proof (induction xs arbitrary: s)
  case Nil
  then show ?case by simp
next
  case (Cons x xs)
  show ?case
  proof (cases "body x s")
    case (Inl e')
    then show ?thesis using Cons.prems by auto
  next
    case (Inr s')
    then have "forE xs s' body = Inl e" using Cons.prems by simp
    then show ?thesis using Cons.IH by fastforce
  qed
qed

lemma getMultilinearLDE_errors:
  "getMultilinearLDE p g x = Inl e \<Longrightarrow> e = EmptyInputError \<or> e = DimensionMismatchError"
  by (auto simp: getMultilinearLDE_def Let_def split: if_splits)

lemma addRoundTerms_errors:
  "addRoundTerms p g r vec s = Inl e \<Longrightarrow> e = EmptyInputError \<or> e = DimensionMismatchError"
  by (auto simp: addRoundTerms_def split: sum.splits dest: getMultilinearLDE_errors)

lemma getUnivariateLagrangeBasis_errors:
  "getUnivariateLagrangeBasis p index nodes x = Inl e \<Longrightarrow> e = DivisionByZeroError"
proof -
  assume "getUnivariateLagrangeBasis p index nodes x = Inl e"
  then obtain j s' where
    "(if j = index then Inr s'
      else let numerator = Field_sub p x (nodes ! j);
               denominator = Field_sub p (nodes ! index) (nodes ! j)
           in case Field_div p numerator denominator of
                Inl e \<Rightarrow> Inl e
              | Inr term \<Rightarrow> Inr (Field_mul p s' term)) = Inl e"
    unfolding getUnivariateLagrangeBasis_def by (blast dest: forE_error_origin)
  then show ?thesis
    by (auto simp: Let_def Field_div_def split: if_splits sum.splits)
qed

lemma getUnivariateLDE_errors:
  "getUnivariateLDE p vs x = Inl e \<Longrightarrow> e = EmptyInputError \<or> e = DivisionByZeroError"
proof -
  assume a: "getUnivariateLDE p vs x = Inl e"
  show ?thesis
  proof (cases "vs = [] \<or> Field_lessThan p x (int (length vs))")
    case True
    then show ?thesis using a by (auto simp: getUnivariateLDE_def split: if_splits)
  next
    case False
    let ?nodes = "map (\<lambda>index. Field p (int index)) [0..<length vs]"
    have "forE [0..<length ?nodes] (Field p 0) (\<lambda>i accumulator.
             case getUnivariateLagrangeBasis p i ?nodes x of
               Inl e \<Rightarrow> Inl e
             | Inr basis \<Rightarrow> Inr (Field_add p accumulator (Field_mul p (vs ! i) basis))) = Inl e"
      using a False unfolding getUnivariateLDE_def Let_def by simp
    then obtain i s' where
      "(case getUnivariateLagrangeBasis p i ?nodes x of
               Inl e \<Rightarrow> Inl e
             | Inr basis \<Rightarrow> Inr (Field_add p s' (Field_mul p (vs ! i) basis))) = Inl e"
      by (blast dest: forE_error_origin)
    then show ?thesis
      by (auto split: sum.splits dest: getUnivariateLagrangeBasis_errors)
  qed
qed

section \<open>The decision of the Verifier\<close>

text \<open>
  The Verifier of sum-check-iterative.ts decides a round by the comparison of
  \<open>g_j(0) + g_j(1)\<close> with the expected value, the proposed sum in round 1 and
  \<open>g_{j-1}(r_{j-1})\<close> in a later round. The Verifier of sum-check.ts never rejects a
  sum, whatever the polynomial.
\<close>

lemma verifyRoundJPolynomial_decides:
  assumes "length (V_r V) + 1 \<le> V_v V" and "length g_j \<le> 2"
    and "getUnivariateLDE p g_j (Field p 0) = Inr a"
    and "getUnivariateLDE p g_j (Field p 1) = Inr b"
    and "(if length (V_r V) = 0 then Inr (V_proposedSum V)
          else if length (V_r V) - 1 < length (V_polynomials V)
            then getUnivariateLDE p (V_polynomials V ! (length (V_r V) - 1))
                   (V_r V ! (length (V_r V) - 1))
          else Inl EmptyInputError) = Inr expected"
  shows "verifyRoundJPolynomial p V g_j c
         = (if Field_add p a b = expected
            then Inr (c, V\<lparr>V_r := V_r V @ [c], V_polynomials := V_polynomials V @ [g_j]\<rparr>)
            else Inl SumMismatchError)"
proof (cases "length (V_r V) = 0")
  case True
  then show ?thesis
    using assms
    by (simp add: verifyRoundJPolynomial_def verifyRound_def Field_equals_def Let_def)
next
  case False
  have j2: "length (V_r V) + 1 - 2 = length (V_r V) - 1" by simp
  show ?thesis
    using False assms
    by (simp add: verifyRoundJPolynomial_def verifyRound_def Field_equals_def Let_def j2
          del: One_nat_def split: if_splits)
qed

lemma verifyRoundJPolynomial_sc_never_rejects_a_sum:
  "verifyRoundJPolynomial_sc p V g_j c \<noteq> Inl SumMismatchError"
  unfolding verifyRoundJPolynomial_sc_def verifyRound_def Let_def not_object_def
  by (auto split: sum.splits if_splits dest: getUnivariateLDE_errors)

text \<open>
  Claim C2. \<open>verifyRoundJPolynomial\<close> rejects with the sum-mismatch error exactly when
  \<open>g_j(0) + g_j(1)\<close> differs from the expected value, and otherwise returns a challenge
  and advances. The Verifier of sum-check.ts breaks this in round 1 of a run with the
  proposed sum 36: for the polynomial \<open>[0, 0]\<close>, whose sum is 0, it returns the
  challenge and stores the polynomial, where the Verifier of sum-check-iterative.ts
  rejects.
\<close>

theorem sc_verifier_accepts_wrong_sum:
  "verifyRoundJPolynomial_sc 257 (new_Verifier 36 3) [0, 0] 5
     = Inr (5, \<lparr>V_v = 3, V_proposedSum = 36, V_polynomials = [[0, 0]], V_r = [5]\<rparr>)
   \<and> verifyRoundJPolynomial 257 (new_Verifier 36 3) [0, 0] 5 = Inl SumMismatchError"
  by code_simp

section \<open>The state of the Prover after an error\<close>

text \<open>
  The Prover of sum-check.ts raises its three structural errors before it touches
  \<open>r\<close>; with an empty \<open>r\<close> it never appends at all.
\<close>

lemma getRoundJPolynomial_sc_state:
  "P_r P = [] \<Longrightarrow> snd (getRoundJPolynomial_sc p P a) = P"
  by (simp add: getRoundJPolynomial_sc_def Let_def)

lemma getRoundJPolynomial_sc_structural_errors:
  assumes "fst (getRoundJPolynomial_sc p P a) = Inl e"
    and "e = RoundOverflowError \<or> e = UnexpectedChallengeError \<or> e = MissingChallengeError"
  shows "snd (getRoundJPolynomial_sc p P a) = P"
proof (rule ccontr)
  assume changed: "snd (getRoundJPolynomial_sc p P a) \<noteq> P"
  then have chk: "\<not> P_v P \<le> length (P_r P)" "\<not> (length (P_r P) = 0 \<and> a \<noteq> None)"
    "\<not> (length (P_r P) \<noteq> 0 \<and> a = None)"
    by (auto simp: getRoundJPolynomial_sc_def Let_def split: if_splits)
  define P1 where "P1 = (if length (P_r P) \<noteq> 0
                  then (case a of Some c \<Rightarrow> P\<lparr>P_r := P_r P @ [c]\<rparr> | None \<Rightarrow> P)
                  else P)"
  have "forE (getBinaryVectors_sc p (P_v P1 - (length (P_r P1) + 1))) (Field p 0, Field p 0)
          (addRoundTerms p (P_g P1) (P_r P1)) = Inl e"
    using assms(1) chk unfolding getRoundJPolynomial_sc_def Let_def P1_def
    by (auto split: sum.splits if_splits)
  then obtain vec s where "addRoundTerms p (P_g P1) (P_r P1) vec s = Inl e"
    by (blast dest: forE_error_origin)
  then show False using assms(2) by (auto dest: addRoundTerms_errors)
qed

text \<open>
  The Prover of sum-check-prover.ts appends the challenge first: whenever the call with a
  challenge overflows, the challenge stays in \<open>r\<close>.
\<close>

lemma overflow_keeps_the_challenge:
  assumes "P_v P \<le> length (P_r P) + 1"
  shows "getRoundJPolynomial p P (Some c) = (Inl RoundOverflowError, P\<lparr>P_r := P_r P @ [c]\<rparr>)"
    and "P_r (snd (getRoundJPolynomial p P (Some c))) \<noteq> P_r P"
  using assms by (simp_all add: getRoundJPolynomial_def Let_def)

text \<open>
  Claim C8. When \<open>getRoundJPolynomial\<close> raises a structural error, the challenge
  vector \<open>r\<close> of the Prover is what it was before the call. The Prover of
  sum-check-prover.ts breaks this: after round 1 of a run with \<open>v = 1\<close> its \<open>r\<close> is
  empty, and the call with the challenge 5 raises the round-overflow error and leaves
  \<open>r = [5]\<close> behind.
\<close>

theorem overflow_after_mutation:
  "getRoundJPolynomial 257 \<lparr>P_v = 1, P_g = [1, 2], P_r = []\<rparr> None
     = (Inr [1, 2], \<lparr>P_v = 1, P_g = [1, 2], P_r = []\<rparr>)
   \<and> getRoundJPolynomial 257 \<lparr>P_v = 1, P_g = [1, 2], P_r = []\<rparr> (Some 5)
     = (Inl RoundOverflowError, \<lparr>P_v = 1, P_g = [1, 2], P_r = [5]\<rparr>)"
  by code_simp

section \<open>The final round\<close>

text \<open>
  In the final round the Prover of sum-check-prover.ts returns the two evaluations of the
  extension of \<open>g\<close> at the challenges followed by 0 and by 1.
\<close>

lemma getRoundJPolynomial_final_round:
  assumes "1 < p" and "g \<noteq> []" and "ceil_log2 (length g) = v"
    and "P_v P = v" and "P_g P = g"
    and "r' = (case r_prev of Some c \<Rightarrow> P_r P @ [c] | None \<Rightarrow> P_r P)"
    and "length r' + 1 = v" and "r' = [] \<longleftrightarrow> r_prev = None"
  shows "\<exists>a b. getMultilinearLDE p g (r' @ [Field p 0]) = Inr a
             \<and> getMultilinearLDE p g (r' @ [Field p 1]) = Inr b
             \<and> fst (getRoundJPolynomial p P r_prev) = Inr [a, b]"
proof -
  have f: "Field p 0 = 0" "Field p 1 = 1" using assms(1) by (simp_all add: Field_def)
  have len: "length r' + 1 + 0 = v" using assms(7) by simp
  have "getRoundJPolynomial p P r_prev
        = (Inr [hsum g v (r' @ [0]) 0 mod p, hsum g v (r' @ [1]) 0 mod p], P\<lparr>P_r := r'\<rparr>)"
    by (rule getRoundJPolynomial_hsum [OF assms(1,2,3,4,5,6) len assms(8)])
  moreover have "getMultilinearLDE p g (r' @ [0]) = Inr (mleZ g v (r' @ [0]) mod p)"
    using getMultilinearLDE_mleZ [OF assms(2), of "r' @ [0]" p] assms(3,7) by simp
  moreover have "getMultilinearLDE p g (r' @ [1]) = Inr (mleZ g v (r' @ [1]) mod p)"
    using getMultilinearLDE_mleZ [OF assms(2), of "r' @ [1]" p] assms(3,7) by simp
  ultimately show ?thesis by (simp add: f hsum_0)
qed

text \<open>
  The Prover of sum-check.ts reaches its final round only for \<open>v = 1\<close>, since its
  \<open>r\<close> stays empty, and the round then fails for every table that the constructor
  accepts.
\<close>

lemma ceil_log2_small: "n \<le> 2 \<Longrightarrow> ceil_log2 n \<le> 1"
  using ceil_log2_least [of n 1] by simp

lemma getRoundJPolynomial_sc_final_round:
  assumes "P_v P = 1" and "P_r P = []" and "P_g P \<noteq> []" and "length (P_g P) \<le> 2 ^ P_v P"
  shows "getRoundJPolynomial_sc p P None = (Inl DimensionMismatchError, P)"
proof -
  have vecs: "getBinaryVectors_sc p 0 = [[Field_of_char p (CHR ''0'')]]"
    by (simp add: getBinaryVectors_sc_def toString2.simps [of 0] padStart_def)
  have "ceil_log2 (length (P_g P)) \<le> 1"
    using assms(1,4) by (intro ceil_log2_small) simp
  then have "getMultilinearLDE p (P_g P) ([] @ [Field p 0] @ [Field_of_char p (CHR ''0'')])
             = Inl DimensionMismatchError"
    using assms(3) by (simp add: getMultilinearLDE_def Let_def)
  then show ?thesis
    using assms(1,2) by (simp add: getRoundJPolynomial_sc_def Let_def vecs addRoundTerms_def)
qed

text \<open>
  Claim C6. In the final round, when no free variable remains, \<open>getRoundJPolynomial\<close>
  returns the pair of the extension at \<open>(r, 0)\<close> and at \<open>(r, 1)\<close>, with no boolean
  suffix appended to the point. The Prover of sum-check.ts breaks this: its
  \<open>getBinaryVectors(0)\<close> is the one vector \<open>[0]\<close>, which it appends to the point, and
  for \<open>g = [1, 2]\<close> and \<open>v = 1\<close> the call fails with the dimension error, where the
  Prover of sum-check-prover.ts returns \<open>[1, 2]\<close>.
\<close>

theorem sc_final_round_throws:
  "new_Prover [1, 2] 1 = Inr \<lparr>P_v = 1, P_g = [1, 2], P_r = []\<rparr>
   \<and> getBinaryVectors_sc 257 0 = [[0]]
   \<and> getRoundJPolynomial_sc 257 \<lparr>P_v = 1, P_g = [1, 2], P_r = []\<rparr> None
       = (Inl DimensionMismatchError, \<lparr>P_v = 1, P_g = [1, 2], P_r = []\<rparr>)
   \<and> getRoundJPolynomial 257 \<lparr>P_v = 1, P_g = [1, 2], P_r = []\<rparr> None
       = (Inr [1, 2], \<lparr>P_v = 1, P_g = [1, 2], P_r = []\<rparr>)"
  by code_simp

section \<open>The two evaluators of a message\<close>

text \<open>
  Both evaluators compute the sum, over the vertices of the hypercube, of the code of the
  character at the vertex times the basis polynomial of the vertex. The table that
  \<open>memoizedLagrangeBasis\<close> builds holds, at the index \<open>i\<close>, the basis polynomial of the
  vertex \<open>toBinary i\<close>. So the evaluators agree on every ASCII message of two or more
  characters.
\<close>

lemma basisZ_snoc: "basisZ (w @ [b]) x = basisZ w x * chi b (x ! length w)"
proof -
  have a: "map (\<lambda>j. chi ((w @ [b]) ! j) (x ! j)) [0..<length w]
           = map (\<lambda>j. chi (w ! j) (x ! j)) [0..<length w]"
    by (rule map_cong) (simp_all add: nth_append)
  have "basisZ (w @ [b]) x
        = prod_list (map (\<lambda>j. chi ((w @ [b]) ! j) (x ! j)) [0..<length w])
          * chi ((w @ [b]) ! length w) (x ! length w)"
    by (simp add: basisZ_def)
  then show ?thesis by (simp only: a) (simp add: basisZ_def)
qed

lemma concat_pairs_length: "length (concat (map (\<lambda>e. [F e, G e]) L)) = 2 * length L"
  by (induction L) simp_all

lemma concat_pairs_nth:
  "q < length L \<Longrightarrow>
     concat (map (\<lambda>e. [F e, G e]) L) ! (2 * q) = F (L ! q)
   \<and> concat (map (\<lambda>e. [F e, G e]) L) ! (2 * q + 1) = G (L ! q)"
proof (induction L arbitrary: q)
  case Nil
  then show ?case by simp
next
  case (Cons e L)
  show ?case
  proof (cases q)
    case 0
    then show ?thesis by simp
  next
    case (Suc q')
    then have "q' < length L" using Cons.prems by simp
    then show ?thesis using Cons.IH [of q'] Suc by simp
  qed
qed

lemma memoized_table:
  assumes "1 \<le> m" and "m \<le> length x"
  shows "length (fold (\<lambda>i prevRound.
                  concat (map (\<lambda>e. [Field_mul p e (Field_sub p (Field p 1) (x ! i)),
                                      Field_mul p e (x ! i)]) prevRound))
                [1..<m] [Field_sub p (Field p 1) (x ! 0), x ! 0]) = 2 ^ m
       \<and> (\<forall>i < 2 ^ m.
            fold (\<lambda>i prevRound.
                  concat (map (\<lambda>e. [Field_mul p e (Field_sub p (Field p 1) (x ! i)),
                                      Field_mul p e (x ! i)]) prevRound))
                [1..<m] [Field_sub p (Field p 1) (x ! 0), x ! 0] ! i mod p
            = basisZ (map int (toBinary i m)) x mod p)"
  using assms
proof (induction m rule: nat_induct_at_least)
  case base
  have "\<And>i. i < 2 \<Longrightarrow> [Field_sub p (Field p 1) (x ! 0), x ! 0] ! i mod p
               = basisZ (map int (toBinary i 1)) x mod p"
  proof -
    fix i :: nat assume "i < 2"
    then have "i = 0 \<or> i = 1" by auto
    then show "[Field_sub p (Field p 1) (x ! 0), x ! 0] ! i mod p
               = basisZ (map int (toBinary i 1)) x mod p"
      by (auto simp: toBinary_def basisZ_def chi_def Field_sub_def Field_def mod_diff_left_eq)
  qed
  then show ?case by simp
next
  case (Suc m)
  let ?expand = "\<lambda>i prevRound.
                  concat (map (\<lambda>e. [Field_mul p e (Field_sub p (Field p 1) (x ! i)),
                                      Field_mul p e (x ! i)]) prevRound)"
  define L where "L = fold ?expand [1..<m] [Field_sub p (Field p 1) (x ! 0), x ! 0]"
  have IH: "length L = 2 ^ m" "\<And>q. q < 2 ^ m \<Longrightarrow> L ! q mod p = basisZ (map int (toBinary q m)) x mod p"
    using Suc.IH Suc.prems unfolding L_def by simp_all
  have next_table: "fold ?expand [1..<Suc m] [Field_sub p (Field p 1) (x ! 0), x ! 0] = ?expand m L"
    using Suc.hyps by (simp add: L_def)
  have len: "length (?expand m L) = 2 ^ Suc m"
    by (simp add: concat_pairs_length IH(1))
  have entries: "\<And>i. i < 2 ^ Suc m \<Longrightarrow>
                   ?expand m L ! i mod p = basisZ (map int (toBinary i (Suc m))) x mod p"
  proof -
    fix i :: nat assume i: "i < 2 ^ Suc m"
    define q where "q = i div 2"
    have q: "q < 2 ^ m" using i by (simp add: q_def)
    have split: "i = 2 * q \<or> i = 2 * q + 1" unfolding q_def by presburger
    have bits: "toBinary i (Suc m) = toBinary q m @ [i mod 2]"
      by (simp add: toBinary_Suc_lsb q_def)
    have basis: "basisZ (map int (toBinary i (Suc m))) x
                 = basisZ (map int (toBinary q m)) x * chi (int (i mod 2)) (x ! m)"
      using basisZ_snoc [of "map int (toBinary q m)" "int (i mod 2)" x] by (simp add: bits)
    have nth: "?expand m L ! (2 * q) = Field_mul p (L ! q) (Field_sub p (Field p 1) (x ! m))"
      "?expand m L ! (2 * q + 1) = Field_mul p (L ! q) (x ! m)"
      using concat_pairs_nth [where q = q and L = L
          and F = "\<lambda>e. Field_mul p e (Field_sub p (Field p 1) (x ! m))"
          and G = "\<lambda>e. Field_mul p e (x ! m)"] q IH(1)
      by simp_all
    show "?expand m L ! i mod p = basisZ (map int (toBinary i (Suc m))) x mod p"
      using split
    proof
      assume e: "i = 2 * q"
      then have "i mod 2 = 0" by simp
      then have b: "basisZ (map int (toBinary i (Suc m))) x
                    = basisZ (map int (toBinary q m)) x * (1 - x ! m)"
        using basis by (simp add: chi_def)
      have v: "?expand m L ! i = (L ! q * ((1 mod p - x ! m) mod p)) mod p"
        unfolding e nth(1) by (simp add: Field_mul_def Field_sub_def Field_def)
      have "(L ! q * ((1 mod p - x ! m) mod p)) mod p
            = (basisZ (map int (toBinary q m)) x * (1 - x ! m)) mod p"
        by (rule mod_mult_cong) (simp_all add: IH(2) [OF q] mod_diff_left_eq)
      then show ?thesis by (simp only: v b mod_mod_trivial)
    next
      assume e: "i = 2 * q + 1"
      then have "i mod 2 = 1" by simp
      then have b: "basisZ (map int (toBinary i (Suc m))) x
                    = basisZ (map int (toBinary q m)) x * x ! m"
        using basis by (simp add: chi_def)
      have v: "?expand m L ! i = (L ! q * x ! m) mod p"
        unfolding e nth(2) by (simp add: Field_mul_def)
      have "(L ! q * x ! m) mod p = (basisZ (map int (toBinary q m)) x * x ! m) mod p"
        by (rule mod_mult_cong) (simp_all add: IH(2) [OF q])
      then show ?thesis by (simp only: v b mod_mod_trivial)
    qed
  qed
  show ?case unfolding next_table using len entries by blast
qed

lemma chi_message_factor:
  "Field_add p (Field_mul p xk (Field p w))
     (Field_mul p (Field_sub p (Field p 1) xk) (Field p (1 - w))) mod p = chi w xk mod p"
proof -
  have a: "((1 mod p - xk) mod p * ((1 - w) mod p)) mod p = ((1 - w) * (1 - xk)) mod p"
    by (subst mult.commute [of "1 - w"], intro mod_mult_cong) (simp_all add: mod_diff_left_eq)
  have b: "(xk * (w mod p)) mod p = (w * xk) mod p"
    by (subst mult.commute [of w], intro mod_mult_cong) simp_all
  have "((xk * (w mod p)) mod p + ((1 mod p - xk) mod p * ((1 - w) mod p)) mod p) mod p
        = (w * xk + (1 - w) * (1 - xk)) mod p"
    by (intro mod_add_cong) (simp_all add: a b)
  then show ?thesis
    by (simp add: Field_add_def Field_mul_def Field_sub_def Field_def chi_def)
qed

lemma getMultilinearLagrangeBasisAt_basisZ:
  assumes "i < 2 ^ d" and "length x = d"
  shows "\<exists>y. getMultilinearLagrangeBasisAt p (generateBinaryVertices d ! i)
                 (generateBinaryVertices d) x = Inr y
             \<and> y mod p = basisZ (map int (toBinary i d)) x mod p"
proof -
  let ?w = "toBinary i d"
  let ?f = "\<lambda>k. Field_add p (Field_mul p (x ! k) (Field p (int (?w ! k))))
                  (Field_mul p (Field_sub p (Field p 1) (x ! k)) (Field p (1 - int (?w ! k))))"
  have w: "generateBinaryVertices d ! i = ?w"
    using assms(1) by (simp add: generateBinaryVertices_def)
  have h: "length (hd (generateBinaryVertices d)) = d"
    by (simp add: generateBinaryVertices_def hd_map upt_conv_Cons)
  have val: "getMultilinearLagrangeBasisAt p (generateBinaryVertices d ! i)
               (generateBinaryVertices d) x
             = Inr (fold (\<lambda>k acc. (acc * ?f k) mod p) [0..<d] (Field p 1))"
    using assms(2) by (simp add: getMultilinearLagrangeBasisAt_def w h Field_mul_def)
  have "fold (\<lambda>k acc. (acc * ?f k) mod p) [0..<d] (Field p 1) mod p
        = (Field p 1 * prod_list (map ?f [0..<d])) mod p"
    by (rule fold_mul_mod)
  also have "\<dots> = prod_list (map ?f [0..<d]) mod p"
    by (simp add: Field_def mod_mult_left_eq)
  also have "\<dots> = prod_list (map (\<lambda>k. chi (int (?w ! k)) (x ! k)) [0..<d]) mod p"
    by (rule prod_list_mod_cong) (rule chi_message_factor)
  also have "\<dots> = basisZ (map int ?w) x mod p"
  proof -
    have "map (\<lambda>k. chi (int (?w ! k)) (x ! k)) [0..<d]
          = map (\<lambda>j. chi (map int ?w ! j) (x ! j)) [0..<length (map int ?w)]"
      by (rule map_cong) simp_all
    then show ?thesis by (simp only: basisZ_def)
  qed
  finally show ?thesis using val by simp
qed

lemma ascii_coefficient:
  assumes "list_all (\<lambda>c. (of_char c :: nat) \<le> 127) message" and "i < length message"
  shows "asciiToNumber (message ! i) = Inr (of_char (message ! i))"
  using assms by (auto simp: asciiToNumber_def list_all_length Let_def not_less)

lemma forE_collect:
  "(\<And>i v1. i \<in> set idxs \<Longrightarrow> body i v1 = Inr (v1 @ [c i])) \<Longrightarrow>
     forE idxs acc body = Inr (acc @ map c idxs)"
  by (induction idxs arbitrary: acc) simp_all

lemma fold_dot_product:
  "fold (\<lambda>i accumulator. Field_add p accumulator (Field_mul p (a i) (b i))) idxs (Field p 0)
   = (\<Sum>i\<leftarrow>idxs. a i * b i) mod p"
proof -
  let ?f = "\<lambda>i acc. (acc + (a i * b i) mod p) mod p"
  have "fold ?f idxs (Field p 0) = fold ?f idxs (Field p 0) mod p"
    by (rule fold_mod_fixed [symmetric]) (simp add: Field_def)
  also have "\<dots> = (Field p 0 + (\<Sum>i\<leftarrow>idxs. (a i * b i) mod p)) mod p"
    by (rule fold_add_mod)
  also have "\<dots> = (\<Sum>i\<leftarrow>idxs. (a i * b i) mod p) mod p"
    by (simp add: Field_def)
  also have "\<dots> = (\<Sum>i\<leftarrow>idxs. a i * b i) mod p"
    by (rule sum_list_mod_cong) simp
  finally show ?thesis by (simp add: Field_add_def Field_mul_def)
qed

lemma getMultilinearLagrange_value:
  assumes "message \<noteq> []" and "list_all (\<lambda>c. (of_char c :: nat) \<le> 127) message"
    and "length x = ceil_log2 (length message)"
  shows "getMultilinearLagrange p message x
         = Inr ((\<Sum>i\<leftarrow>[0..<2 ^ ceil_log2 (length message)].
                   (if i \<ge> length message then Field p 0
                    else Field p (int (of_char (message ! i))))
                   * basisZ (map int (toBinary i (ceil_log2 (length message)))) x) mod p)"
proof -
  let ?d = "ceil_log2 (length message)"
  let ?coef = "\<lambda>i. if i \<ge> length message then Field p 0
                    else Field p (int (of_char (message ! i)))"
  define BA where "BA = (\<lambda>i. case getMultilinearLagrangeBasisAt p
                            (generateBinaryVertices ?d ! i) (generateBinaryVertices ?d) x of
                          Inr y \<Rightarrow> y | Inl e \<Rightarrow> 0)"
  have BA: "\<And>i. i < 2 ^ ?d \<Longrightarrow>
               getMultilinearLagrangeBasisAt p (generateBinaryVertices ?d ! i)
                 (generateBinaryVertices ?d) x = Inr (BA i)
               \<and> BA i mod p = basisZ (map int (toBinary i ?d)) x mod p"
    using getMultilinearLagrangeBasisAt_basisZ [OF _ assms(3), of _ p]
    unfolding BA_def by fastforce
  let ?body = "\<lambda>i accumulator.
                case (if i \<ge> length message then Inr (Field p 0)
                      else (case asciiToNumber (message ! i) of
                              Inl e \<Rightarrow> Inl e
                            | Inr c \<Rightarrow> Inr (Field p (int c)))) of
                  Inl e \<Rightarrow> Inl e
                | Inr coefficient \<Rightarrow>
                    (case getMultilinearLagrangeBasisAt p (generateBinaryVertices ?d ! i)
                            (generateBinaryVertices ?d) x of
                       Inl e \<Rightarrow> Inl e
                     | Inr lagrangeBasisAtInput \<Rightarrow>
                         Inr (Field_add p accumulator
                                (Field_mul p coefficient lagrangeBasisAtInput)))"
  have step: "\<And>i s. i \<in> set [0..<2 ^ ?d] \<Longrightarrow>
                ?body i s = Inr (Field_add p s (Field_mul p (?coef i) (BA i)))"
    using BA by (simp add: ascii_coefficient [OF assms(2)])
  have "forE [0..<2 ^ ?d] (Field p 0) ?body
        = Inr (fold (\<lambda>i s. Field_add p s (Field_mul p (?coef i) (BA i))) [0..<2 ^ ?d] (Field p 0))"
    using step by (rule forE_pure)
  also have "fold (\<lambda>i s. Field_add p s (Field_mul p (?coef i) (BA i))) [0..<2 ^ ?d] (Field p 0)
             = (\<Sum>i\<leftarrow>[0..<2 ^ ?d]. ?coef i * BA i) mod p"
    by (rule fold_dot_product)
  also have "\<dots> = (\<Sum>i\<leftarrow>[0..<2 ^ ?d]. ?coef i * basisZ (map int (toBinary i ?d)) x) mod p"
  proof (rule sum_list_mod_cong)
    fix i assume "i \<in> set [0..<2 ^ ?d]"
    then have "BA i mod p = basisZ (map int (toBinary i ?d)) x mod p" using BA by simp
    then show "(?coef i * BA i) mod p = (?coef i * basisZ (map int (toBinary i ?d)) x) mod p"
      by (intro mod_mult_cong refl)
  qed
  finally show ?thesis
    using assms(1) by (simp add: getMultilinearLagrange_def Let_def)
qed

lemma ceil_log2_positive: "2 \<le> n \<Longrightarrow> 1 \<le> ceil_log2 n"
  by (simp add: ceil_log2.simps [of n])

lemma getMemoizedMultilinearLagrange_value:
  assumes "2 \<le> length message" and "list_all (\<lambda>c. (of_char c :: nat) \<le> 127) message"
    and "length x = ceil_log2 (length message)"
  shows "getMemoizedMultilinearLagrange p message x
         = Inr ((\<Sum>i\<leftarrow>[0..<2 ^ ceil_log2 (length message)].
                   (if i \<ge> length message then Field p 0
                    else Field p (int (of_char (message ! i))))
                   * basisZ (map int (toBinary i (ceil_log2 (length message)))) x) mod p)"
proof -
  let ?d = "ceil_log2 (length message)"
  let ?coef = "\<lambda>i. if i \<ge> length message then Field p 0
                    else Field p (int (of_char (message ! i)))"
  have d1: "1 \<le> ?d" using assms(1) by (rule ceil_log2_positive)
  have ne: "message \<noteq> []" "x \<noteq> []" using assms(1,3) d1 by auto
  define v2 where "v2 = fold (\<lambda>i prevRound.
                  concat (map (\<lambda>e. [Field_mul p e (Field_sub p (Field p 1) (x ! i)),
                                      Field_mul p e (x ! i)]) prevRound))
                [1..<?d] [Field_sub p (Field p 1) (x ! 0), x ! 0]"
  have v2: "\<And>i. i < 2 ^ ?d \<Longrightarrow> v2 ! i mod p = basisZ (map int (toBinary i ?d)) x mod p"
    using memoized_table [OF d1, of x p] assms(3) unfolding v2_def by simp
  have basis: "memoizedLagrangeBasis p x = Inr v2"
    using ne(2) assms(3) by (simp add: memoizedLagrangeBasis_def v2_def)
  have v1: "forE [0..<2 ^ ?d] [] (\<lambda>index v1.
                      if index \<ge> length message then Inr (v1 @ [Field p 0])
                      else (case asciiToNumber (message ! index) of
                              Inl e \<Rightarrow> Inl e
                            | Inr c \<Rightarrow> Inr (v1 @ [Field p (int c)])))
            = Inr ([] @ map ?coef [0..<2 ^ ?d])"
    by (rule forE_collect) (simp add: ascii_coefficient [OF assms(2)])
  have dot: "fold (\<lambda>i accumulator.
                  Field_add p accumulator (Field_mul p (map ?coef [0..<2 ^ ?d] ! i) (v2 ! i)))
               [0..<2 ^ ?d] (Field p 0)
             = (\<Sum>i\<leftarrow>[0..<2 ^ ?d]. map ?coef [0..<2 ^ ?d] ! i * v2 ! i) mod p"
    by (rule fold_dot_product)
  have "(\<Sum>i\<leftarrow>[0..<2 ^ ?d]. map ?coef [0..<2 ^ ?d] ! i * v2 ! i) mod p
        = (\<Sum>i\<leftarrow>[0..<2 ^ ?d]. ?coef i * basisZ (map int (toBinary i ?d)) x) mod p"
  proof (rule sum_list_mod_cong)
    fix i assume "i \<in> set [0..<2 ^ ?d]"
    then have i: "i < 2 ^ ?d" by simp
    then have "map ?coef [0..<2 ^ ?d] ! i = ?coef i" by simp
    moreover have "(?coef i * v2 ! i) mod p = (?coef i * basisZ (map int (toBinary i ?d)) x) mod p"
      by (intro mod_mult_cong refl v2 [OF i])
    ultimately show "(map ?coef [0..<2 ^ ?d] ! i * v2 ! i) mod p
          = (?coef i * basisZ (map int (toBinary i ?d)) x) mod p"
      by (simp only:)
  qed
  then show ?thesis
    using ne(1) assms(3) v1 dot
    by (simp add: getMemoizedMultilinearLagrange_def getRequiredBits_def basis Let_def)
qed

lemma evaluators_agree_from_two_characters:
  assumes "2 \<le> length message" and "list_all (\<lambda>c. (of_char c :: nat) \<le> 127) message"
    and "length x = ceil_log2 (length message)"
  shows "getMemoizedMultilinearLagrange p message x = getMultilinearLagrange p message x"
proof -
  have "message \<noteq> []" using assms(1) by auto
  then show ?thesis
    using getMultilinearLagrange_value [OF _ assms(2,3), of p]
      getMemoizedMultilinearLagrange_value [OF assms, of p]
    by simp
qed

text \<open>
  On a message of one ASCII character the dimension is zero and the only valid vector is
  the empty one. The naive evaluator returns the code of the character; the memoized
  evaluator reads \<open>x[0]\<close> of the empty vector and throws.
\<close>

lemma memoized_fails_in_dimension_zero:
  assumes "(of_char ch :: nat) \<le> 127"
  shows "getMultilinearLagrange p [ch] [] = Inr (Field p (int (of_char ch)))"
    and "getMemoizedMultilinearLagrange p [ch] [] = Inl UndefinedOperandError"
proof -
  have d: "ceil_log2 (Suc 0) = 0" by (simp add: ceil_log2.simps)
  have "Field_add p (Field p 0) (Field_mul p (Field p (int (of_char ch))) (Field p 1))
        = Field p (int (of_char ch))"
    by (simp add: Field_add_def Field_mul_def Field_def mod_simps)
  then show "getMultilinearLagrange p [ch] [] = Inr (Field p (int (of_char ch)))"
    using assms
    by (simp add: getMultilinearLagrange_def d generateBinaryVertices_def toBinary_def
          asciiToNumber_def getMultilinearLagrangeBasisAt_def Let_def)
  show "getMemoizedMultilinearLagrange p [ch] [] = Inl UndefinedOperandError"
    using assms
    by (simp add: getMemoizedMultilinearLagrange_def getRequiredBits_def d
          generateBinaryVertices_def toBinary_def asciiToNumber_def memoizedLagrangeBasis_def
          Let_def)
qed

text \<open>
  Claim C3. For every non-empty message and every vector of the length that the message
  requires, the naive and the memoized evaluator return the same field element, and
  neither succeeds where the other fails. The message \<open>h\<close> with the empty vector breaks
  this: the naive evaluator returns 104 and the memoized evaluator throws.
\<close>

theorem memoized_fails_on_one_character:
  "getMultilinearLagrange 257 ''h'' [] = Inr 104
   \<and> getMemoizedMultilinearLagrange 257 ''h'' [] = Inl UndefinedOperandError"
  by code_simp

end
